theory Spec2Isabelle
  imports Main "HOL-Library.Sublist"
begin

section \<open>The CloudWatch log handler of pycwl\<close>

text \<open>
  A shallow embedding of \<^verbatim>\<open>src/pycwl/__init__.py\<close>: the class
  \<^verbatim>\<open>CloudWatchLogHandler\<close> with its methods \<^verbatim>\<open>_submit_batch\<close>,
  \<^verbatim>\<open>emit\<close>, \<^verbatim>\<open>batch_sender\<close> and \<^verbatim>\<open>flush\<close>.

  Exceptions are values of the type \<open>error\<close>; a method that may raise returns
  \<open>error option\<close> (\<open>None\<close>: it returned normally) beside the state it leaves behind.
  The boto3 client is a parameter: what \<^verbatim>\<open>put_log_events\<close> answers may depend on
  the requests made before and on the request itself.
\<close>

subsection \<open>Data\<close>

text \<open>The dict \<^verbatim>\<open>dict(timestamp=..., message=...)\<close> built at line 94.\<close>

record log_event =
  timestamp :: int
  message :: string

text \<open>What travels on a stream's queue: a message dict, or \<^verbatim>\<open>self.END\<close>.\<close>

datatype qitem = Msg log_event | END

text \<open>
  The exceptions of the module. \<open>ClientError code message\<close> carries
  \<^verbatim>\<open>e.response["Error"]["Code"]\<close> and \<^verbatim>\<open>["Message"]\<close>, either of which may be
  missing; \<open>TransportError\<close> is any other exception the client raises.
\<close>

datatype error =
    ClientError "string option" "string option"
  | TransportError string
  | KeyError string
  | FailedToDeliver
  | AttributeError
  | ValueError

text \<open>The keyword arguments of \<^verbatim>\<open>put_log_events\<close> (lines 62 to 65).\<close>

record request =
  logGroupName :: string
  logStreamName :: string
  logEvents :: "log_event list"
  sequenceToken :: "string option"

text \<open>
  The response dict: whether the key \<^verbatim>\<open>rejectedLogEventsInfo\<close> is in it, and the
  value under \<^verbatim>\<open>nextSequenceToken\<close> when that key is there.
\<close>

record response =
  rejectedLogEventsInfo :: bool
  nextSequenceToken :: "string option"

datatype reply = Response response | Raises error

record client =
  put_log_events :: "request list \<Rightarrow> request \<Rightarrow> reply"
  create_log_stream :: "string \<Rightarrow> string \<Rightarrow> error option"

text \<open>
  A \<^verbatim>\<open>Queue\<close> object: the items waiting, and the counter \<^verbatim>\<open>unfinished_tasks\<close>
  that \<^verbatim>\<open>put\<close> increments, \<^verbatim>\<open>task_done\<close> decrements and \<^verbatim>\<open>join\<close> waits on.
  \<open>put_log\<close> records every item ever put, in order; no method reads it, it is there
  for the statements about what was enqueued.
\<close>

record queue =
  items :: "qitem list"
  unfinished_tasks :: nat
  put_log :: "qitem list"

text \<open>The local variables of one \<^verbatim>\<open>batch_sender\<close> thread, and how far it got.\<close>

datatype thread_status = Running | Exited | Died error

record sender =
  msg :: "qitem option"
  cur_batch :: "log_event list"
  cur_batch_size :: int
  cur_batch_msg_count :: int
  status :: thread_status

text \<open>
  The handler object. \<open>threads\<close> holds the batch-sender thread started for each stream
  and \<open>calls\<close> the history of \<^verbatim>\<open>put_log_events\<close> calls, each with its answer.
\<close>

record handler =
  log_group :: string
  use_queues :: bool
  max_batch_size :: int
  max_batch_count :: int
  queues :: "string \<rightharpoonup> queue"
  sequence_tokens :: "string \<rightharpoonup> string option"
  threads :: "string \<rightharpoonup> sender"
  calls :: "(request \<times> reply) list"

text \<open>A log record as \<^verbatim>\<open>emit\<close> reads it: \<^verbatim>\<open>message.name\<close>,
  \<^verbatim>\<open>int(message.created * 1000)\<close> and \<^verbatim>\<open>message.msg\<close>.\<close>

record log_record =
  name :: string
  created_ms :: int
  text_msg :: string

subsection \<open>\<^verbatim>\<open>_submit_batch\<close>\<close>

text \<open>\<^verbatim>\<open>s.rsplit(" ", 1)[-1]\<close>: what follows the last space, all of \<open>s\<close> without one.\<close>

definition rsplit_last :: "string \<Rightarrow> string" where
  "rsplit_last s = rev (takeWhile (\<lambda>c. c \<noteq> CHR '' '') (rev s))"

text \<open>One call of \<^verbatim>\<open>self.cwl_client.put_log_events(**kwargs)\<close>.\<close>

definition call_put :: "client \<Rightarrow> handler \<Rightarrow> request \<Rightarrow> reply \<times> handler" where
  "call_put c h kwargs =
     (let r = put_log_events c (map fst (calls h)) kwargs
      in (r, h\<lparr>calls := calls h @ [(kwargs, r)]\<rparr>))"

text \<open>
  The \<^verbatim>\<open>except ClientError\<close> clause, lines 69 to 75: the token to retry with, or
  the exception that leaves the method.
\<close>

fun recover :: "error \<Rightarrow> error + string" where
  "recover (ClientError code m) =
     (if code = Some ''DataAlreadyAcceptedException''
         \<or> code = Some ''InvalidSequenceTokenException''
      then (case m of None \<Rightarrow> Inl (KeyError ''Message'')
                    | Some txt \<Rightarrow> Inr (rsplit_last txt))
      else Inl (ClientError code m))"
| "recover e = Inl e"

text \<open>Lines 77 to 81, once a response is there.\<close>

definition finish :: "handler \<Rightarrow> string \<Rightarrow> response \<Rightarrow> error option \<times> handler" where
  "finish h stream_name resp =
     (if rejectedLogEventsInfo resp then (Some FailedToDeliver, h)
      else (case nextSequenceToken resp of
              None \<Rightarrow> (Some (KeyError ''nextSequenceToken''), h)
            | Some t \<Rightarrow>
                (None, h\<lparr>sequence_tokens := (sequence_tokens h)(stream_name \<mapsto> Some t)\<rparr>)))"

definition submit_batch ::
  "client \<Rightarrow> handler \<Rightarrow> log_event list \<Rightarrow> string \<Rightarrow> error option \<times> handler" where
  "submit_batch c h batch stream_name =
     (case sequence_tokens h stream_name of
        None \<Rightarrow> (Some (KeyError stream_name), h)
      | Some tok \<Rightarrow>
          (let kwargs = \<lparr>logGroupName = log_group h, logStreamName = stream_name,
                         logEvents = batch, sequenceToken = tok\<rparr>;
               (r1, h1) = call_put c h kwargs
           in case r1 of
                Response resp \<Rightarrow> finish h1 stream_name resp
              | Raises e \<Rightarrow>
                  (case recover e of
                     Inl e' \<Rightarrow> (Some e', h1)
                   | Inr t \<Rightarrow>
                       (let (r2, h2) = call_put c h1 (kwargs\<lparr>sequenceToken := Some t\<rparr>)
                        in case r2 of
                             Response resp \<Rightarrow> finish h2 stream_name resp
                           | Raises e2 \<Rightarrow> (Some e2, h2)))))"

subsection \<open>\<^verbatim>\<open>batch_sender\<close>\<close>

text \<open>The local function \<^verbatim>\<open>size\<close> of line 112.\<close>

definition size_msg :: "log_event \<Rightarrow> int" where
  "size_msg m = int (length (message m)) + 26"

text \<open>
  \<^verbatim>\<open>queue.task_done()\<close>: the counter goes down by one; Python raises
  \<^verbatim>\<open>ValueError\<close> when it is called more often than items were put.
\<close>

definition task_done :: "queue \<Rightarrow> queue option" where
  "task_done q =
     (if unfinished_tasks q = 0 then None
      else Some (q\<lparr>unfinished_tasks := unfinished_tasks q - 1\<rparr>))"

definition put :: "queue \<Rightarrow> qitem \<Rightarrow> queue" where
  "put q x = q\<lparr>items := items q @ [x], unfinished_tasks := Suc (unfinished_tasks q),
               put_log := put_log q @ [x]\<rparr>"

text \<open>
  Lines 116 to 120, the head of the outer loop: the thread leaves the loop when
  \<open>msg\<close> is \<open>END\<close>, and otherwise opens a batch that holds \<open>msg\<close> unless it is
  \<^verbatim>\<open>None\<close>.
\<close>

definition while_head :: "sender \<Rightarrow> sender" where
  "while_head w =
     (case msg w of
        Some END \<Rightarrow> w\<lparr>status := Exited\<rparr>
      | None \<Rightarrow> w\<lparr>cur_batch := [], cur_batch_size := 0, cur_batch_msg_count := 0\<rparr>
      | Some (Msg m) \<Rightarrow>
          w\<lparr>cur_batch := [m], cur_batch_size := size_msg m, cur_batch_msg_count := 1\<rparr>)"

text \<open>The thread as it enters the inner loop for the first time (\<open>msg = None\<close>).\<close>

definition new_sender :: sender where
  "new_sender =
     while_head \<lparr>msg = None, cur_batch = [], cur_batch_size = 0,
                 cur_batch_msg_count = 0, status = Running\<rparr>"

text \<open>
  What \<^verbatim>\<open>queue.get(block=True, timeout=...)\<close> does: it returns an item, or raises
  \<^verbatim>\<open>Empty\<close> when the timeout passes.
\<close>

datatype get_result = Got qitem | Empty

text \<open>
  The condition of lines 126 to 129 for the item just received. \<open>late\<close> is the value
  of \<^verbatim>\<open>time.time() >= cur_batch_deadline\<close>, read last.
\<close>

fun closes :: "int \<Rightarrow> int \<Rightarrow> bool \<Rightarrow> sender \<Rightarrow> qitem \<Rightarrow> bool" where
  "closes mbs mbc late w END = True"
| "closes mbs mbc late w (Msg m) =
     (cur_batch_size w + size_msg m > mbs \<or> cur_batch_msg_count w \<ge> mbc \<or> late)"

text \<open>
  One pass through the inner loop (lines 122 to 137), followed by the head of the outer
  loop when the pass ends in \<^verbatim>\<open>break\<close>.

  The handler \<^verbatim>\<open>except queue.Empty\<close> names the parameter \<open>queue\<close>, a
  \<^verbatim>\<open>Queue\<close> object, which has no attribute \<^verbatim>\<open>Empty\<close> (the module imports only
  the class \<^verbatim>\<open>Queue\<close>): when \<^verbatim>\<open>get\<close> times out, evaluating the handler raises
  \<^verbatim>\<open>AttributeError\<close> and the thread ends.
\<close>

definition loop_body ::
  "client \<Rightarrow> string \<Rightarrow> int \<Rightarrow> int \<Rightarrow> get_result \<Rightarrow> bool
     \<Rightarrow> sender \<times> queue \<times> handler \<Rightarrow> sender \<times> queue \<times> handler" where
  "loop_body c stream_name mbs mbc g late = (\<lambda>(w, q, h).
     case g of
       Empty \<Rightarrow> (w\<lparr>status := Died AttributeError\<rparr>, q, h)
     | Got x \<Rightarrow>
         (let w1 = w\<lparr>msg := Some x\<rparr> in
          if closes mbs mbc late w1 x then
            (case submit_batch c h (cur_batch w1) stream_name of
               (Some e, h') \<Rightarrow> (w1\<lparr>status := Died e\<rparr>, q, h')
             | (None, h') \<Rightarrow>
                 (case task_done q of
                    None \<Rightarrow> (w1\<lparr>status := Died ValueError\<rparr>, q, h')
                  | Some q' \<Rightarrow> (while_head w1, q', h')))
          else
            (case x of
               END \<Rightarrow> (w1, q, h)
             | Msg m \<Rightarrow>
                 (let w2 = w1\<lparr>cur_batch_size := cur_batch_size w1 + size_msg m,
                               cur_batch_msg_count := cur_batch_msg_count w1 + 1,
                               cur_batch := cur_batch w1 @ [m]\<rparr>
                  in case task_done q of
                       None \<Rightarrow> (w2\<lparr>status := Died ValueError\<rparr>, q, h)
                     | Some q' \<Rightarrow> (w2, q', h)))))"

text \<open>
  The thread's run, given what its successive calls of \<^verbatim>\<open>get\<close> do and what the
  clock says at each: every pass of the inner loop calls \<^verbatim>\<open>get\<close> once, and a thread
  that has left the loop or died takes no further step.
\<close>

fun batch_sender ::
  "client \<Rightarrow> string \<Rightarrow> int \<Rightarrow> int \<Rightarrow> (get_result \<times> bool) list
     \<Rightarrow> sender \<times> queue \<times> handler \<Rightarrow> sender \<times> queue \<times> handler" where
  "batch_sender c stream_name mbs mbc [] s = s"
| "batch_sender c stream_name mbs mbc ((g, late) # evs) s =
     (if status (fst s) = Running
      then batch_sender c stream_name mbs mbc evs (loop_body c stream_name mbs mbc g late s)
      else s)"

subsection \<open>\<^verbatim>\<open>emit\<close> and \<^verbatim>\<open>flush\<close>\<close>

text \<open>\<^verbatim>\<open>_idempotent_create\<close> applied to \<^verbatim>\<open>create_log_stream\<close>.\<close>

definition idempotent_create :: "error option \<Rightarrow> error option" where
  "idempotent_create r =
     (case r of
        Some (ClientError code m) \<Rightarrow>
          (if code \<noteq> Some ''ResourceAlreadyExistsException''
           then Some (ClientError code m) else None)
      | other \<Rightarrow> other)"

definition emit :: "client \<Rightarrow> handler \<Rightarrow> log_record \<Rightarrow> error option \<times> handler" where
  "emit c h r =
     (let stream_name = name r;
          (e1, h1) =
            (if stream_name \<notin> dom (sequence_tokens h)
             then (case idempotent_create (create_log_stream c (log_group h) stream_name) of
                     Some e \<Rightarrow> (Some e, h)
                   | None \<Rightarrow>
                       (None, h\<lparr>sequence_tokens := (sequence_tokens h)(stream_name \<mapsto> None)\<rparr>))
             else (None, h))
      in case e1 of
           Some e \<Rightarrow> (Some e, h1)
         | None \<Rightarrow>
             (let m = \<lparr>timestamp = created_ms r, message = text_msg r\<rparr> in
              if use_queues h1 then
                (let h2 = (if stream_name \<notin> dom (queues h1)
                           then h1\<lparr>queues := (queues h1)(stream_name \<mapsto>
                                      \<lparr>items = [], unfinished_tasks = 0, put_log = []\<rparr>),
                                   threads := (threads h1)(stream_name \<mapsto> new_sender)\<rparr>
                           else h1)
                 in (None, h2\<lparr>queues := (\<lambda>s. if s = stream_name
                                              then map_option (\<lambda>q. put q (Msg m)) (queues h2 s)
                                              else queues h2 s)\<rparr>))
              else submit_batch c h1 [m] stream_name))"

text \<open>The first loop of \<^verbatim>\<open>flush\<close> (lines 142 to 144): \<open>END\<close> goes on every queue.\<close>

definition flush_put :: "handler \<Rightarrow> handler" where
  "flush_put h = h\<lparr>queues := (\<lambda>s. map_option (\<lambda>q. put q END) (queues h s))\<rparr>"

text \<open>
  The second loop (lines 145 and 146) waits: \<^verbatim>\<open>queue.join()\<close> returns once the
  queue's counter of unfinished tasks is zero.
\<close>

definition join_returns :: "handler \<Rightarrow> string \<Rightarrow> bool" where
  "join_returns h s = (case queues h s of None \<Rightarrow> True | Some q \<Rightarrow> unfinished_tasks q = 0)"

subsection \<open>The handler and its threads together\<close>

text \<open>
  One pass of the inner loop of the thread of stream \<open>s\<close>, on the handler's own queue:
  \<^verbatim>\<open>get\<close> takes the first item, or times out on an empty queue.
\<close>

definition thread_step :: "client \<Rightarrow> string \<Rightarrow> bool \<Rightarrow> handler \<Rightarrow> handler" where
  "thread_step c s late h =
     (case (threads h s, queues h s) of
        (Some w, Some q) \<Rightarrow>
          (if status w = Running then
             (let (g, q0) = (case items q of [] \<Rightarrow> (Empty, q)
                                            | x # xs \<Rightarrow> (Got x, q\<lparr>items := xs\<rparr>));
                  (w', q', h') =
                     loop_body c s (max_batch_size h) (max_batch_count h) g late (w, q0, h)
              in h'\<lparr>threads := (threads h')(s \<mapsto> w'), queues := (queues h')(s \<mapsto> q')\<rparr>)
           else h)
      | other \<Rightarrow> h)"

datatype action = Emit log_record | FlushPut | Step string bool

fun act :: "client \<Rightarrow> action \<Rightarrow> handler \<Rightarrow> handler" where
  "act c (Emit r) h = snd (emit c h r)"
| "act c FlushPut h = flush_put h"
| "act c (Step s late) h = thread_step c s late h"

fun run :: "client \<Rightarrow> action list \<Rightarrow> handler \<Rightarrow> handler" where
  "run c [] h = h"
| "run c (a # as) h = run c as (act c a h)"

text \<open>The handler as \<^verbatim>\<open>__init__\<close> leaves it.\<close>

definition init :: "string \<Rightarrow> bool \<Rightarrow> int \<Rightarrow> int \<Rightarrow> handler" where
  "init lg uq mbs mbc =
     \<lparr>log_group = lg, use_queues = uq, max_batch_size = mbs, max_batch_count = mbc,
      queues = Map.empty, sequence_tokens = Map.empty, threads = Map.empty, calls = []\<rparr>"

text \<open>The batches of the requests made from the state \<open>h\<close> on, up to \<open>h'\<close>.\<close>

definition new_calls :: "handler \<Rightarrow> handler \<Rightarrow> (request \<times> reply) list" where
  "new_calls h h' = drop (length (calls h)) (calls h')"

subsection \<open>What reached the store\<close>

text \<open>The requests made for one stream.\<close>

definition stream_calls :: "string \<Rightarrow> handler \<Rightarrow> (request \<times> reply) list" where
  "stream_calls s h = filter (\<lambda>x. logStreamName (fst x) = s) (calls h)"

text \<open>A request is accepted when the store answers it with a response that rejects no
  event; the messages delivered on a stream are those of its accepted requests.\<close>

fun accepted :: "reply \<Rightarrow> bool" where
  "accepted (Response resp) = (\<not> rejectedLogEventsInfo resp)"
| "accepted (Raises e) = False"

definition delivered :: "string \<Rightarrow> handler \<Rightarrow> log_event list" where
  "delivered s h =
     concat (map (logEvents \<circ> fst) (filter (\<lambda>x. accepted (snd x)) (stream_calls s h)))"

subsection \<open>The tokens of a stream's requests, in order\<close>

text \<open>
  What the next request of a stream has to carry: \<open>First tok\<close> before the first request
  of a submission, where \<open>tok\<close> is the \<^verbatim>\<open>nextSequenceToken\<close> of the latest response
  that ended a submission of the stream successfully (none yet: \<open>None\<close>, and the request
  has no token); \<open>Retry tok t\<close> after a stale-token error whose message ends in \<open>t\<close>.
\<close>

datatype expect = First "string option" | Retry "string option" string

text \<open>The token that a response leaves for the next submission.\<close>

definition after_response :: "string option \<Rightarrow> response \<Rightarrow> string option" where
  "after_response tok resp =
     (if rejectedLogEventsInfo resp then tok
      else (case nextSequenceToken resp of None \<Rightarrow> tok | Some t \<Rightarrow> Some t))"

fun track_step :: "expect \<Rightarrow> request \<times> reply \<Rightarrow> expect option" where
  "track_step (First tok) (rq, r) =
     (if sequenceToken rq \<noteq> tok then None
      else (case r of
              Response resp \<Rightarrow> Some (First (after_response tok resp))
            | Raises e \<Rightarrow>
                (case recover e of
                   Inl e' \<Rightarrow> Some (First tok)
                 | Inr t \<Rightarrow> Some (Retry tok t))))"
| "track_step (Retry tok t) (rq, r) =
     (if sequenceToken rq \<noteq> Some t then None
      else (case r of
              Response resp \<Rightarrow> Some (First (after_response tok resp))
            | Raises e \<Rightarrow> Some (First tok)))"

text \<open>\<open>track e xs\<close> is \<open>None\<close> as soon as one request of \<open>xs\<close> carries another token
  than expected, and otherwise what is expected after \<open>xs\<close>.\<close>

fun track :: "expect \<Rightarrow> (request \<times> reply) list \<Rightarrow> expect option" where
  "track e [] = Some e"
| "track e (x # xs) = (case track_step e x of None \<Rightarrow> None | Some e' \<Rightarrow> track e' xs)"

definition token_inv :: "handler \<Rightarrow> string \<Rightarrow> bool" where
  "token_inv h s =
     ((sequence_tokens h s = None \<longrightarrow> stream_calls s h = [])
      \<and> (\<forall>tok. sequence_tokens h s = Some tok \<longrightarrow>
             track (First None) (stream_calls s h) = Some (First tok)))"

subsection \<open>What a queue, its thread and the store keep true together\<close>

text \<open>
  \<open>D\<close> stands for the messages delivered on the stream. While the thread runs, what was
  put is what was delivered, then the batch, then what waits, and the counter is the
  number of items waiting. Once it has left the loop, the sentinel follows what was
  delivered. When it has died, either it took an item that it never marked done, or it
  timed out on an empty queue before any sentinel was put.
\<close>

definition thread_inv :: "sender \<Rightarrow> queue \<Rightarrow> log_event list \<Rightarrow> bool" where
  "thread_inv w q D =
     (case status w of
        Running \<Rightarrow>
          put_log q = map Msg (D @ cur_batch w) @ items q
          \<and> unfinished_tasks q = length (items q)
      | Exited \<Rightarrow>
          put_log q = map Msg D @ END # items q
          \<and> unfinished_tasks q = length (items q)
      | Died e \<Rightarrow>
          unfinished_tasks q = Suc (length (items q))
          \<or> (unfinished_tasks q = length (items q)
              \<and> (END \<in> set (put_log q) \<longrightarrow> END \<in> set (items q))))"

definition stream_inv :: "handler \<Rightarrow> string \<Rightarrow> bool" where
  "stream_inv h s =
     (case queues h s of
        None \<Rightarrow> threads h s = None \<and> stream_calls s h = []
      | Some q \<Rightarrow>
          (case threads h s of
             None \<Rightarrow> False
           | Some w \<Rightarrow> thread_inv w q (delivered s h)))"

definition handler_inv :: "handler \<Rightarrow> bool" where
  "handler_inv h = (use_queues h \<and> (\<forall>s. stream_inv h s))"

subsection \<open>The claims' own words\<close>

text \<open>
  The error classes that the except clause of \<^verbatim>\<open>_submit_batch\<close> retries on.
\<close>

fun stale_token_error :: "error \<Rightarrow> bool" where
  "stale_token_error (ClientError code m) =
     (code = Some ''DataAlreadyAcceptedException''
      \<or> code = Some ''InvalidSequenceTokenException'')"
| "stale_token_error e = False"

text \<open>
  The token as the specification words it: what follows the last whitespace character
  (space, tab, line feed, vertical tab, form feed, carriage return).
\<close>

definition is_whitespace :: "char \<Rightarrow> bool" where
  "is_whitespace ch =
     (ch \<in> {CHR '' '', CHR 0x09, CHR 0x0A, CHR 0x0B, CHR 0x0C, CHR 0x0D})"

definition after_last_whitespace :: "string \<Rightarrow> string" where
  "after_last_whitespace s = rev (takeWhile (\<lambda>ch. \<not> is_whitespace ch) (rev s))"

subsection \<open>Example data\<close>

definition ev1 :: log_event where
  "ev1 = \<lparr>timestamp = 1, message = ''a''\<rparr>"

definition ev2 :: log_event where
  "ev2 = \<lparr>timestamp = 2, message = ''bb''\<rparr>"

definition rec1 :: log_record where
  "rec1 = \<lparr>name = ''A'', created_ms = 1, text_msg = ''a''\<rparr>"

text \<open>A store that accepts every request, one that is unreachable, and one whose first
  answer is a stale-token error with the given message.\<close>

definition accepting :: client where
  "accepting =
     \<lparr>put_log_events = (\<lambda>hist rq. Response \<lparr>rejectedLogEventsInfo = False,
          nextSequenceToken = Some (replicate (Suc (length hist)) CHR ''t'')\<rparr>),
      create_log_stream = (\<lambda>g s. None)\<rparr>"

definition refusing :: client where
  "refusing =
     \<lparr>put_log_events = (\<lambda>hist rq. Raises (TransportError ''down'')),
      create_log_stream = (\<lambda>g s. None)\<rparr>"

definition stale_first :: "string \<Rightarrow> client" where
  "stale_first txt =
     \<lparr>put_log_events = (\<lambda>hist rq.
        if hist = []
        then Raises (ClientError (Some ''InvalidSequenceTokenException'') (Some txt))
        else Response \<lparr>rejectedLogEventsInfo = False, nextSequenceToken = Some ''50''\<rparr>),
      create_log_stream = (\<lambda>g s. None)\<rparr>"

definition ev_big :: log_event where
  "ev_big = \<lparr>timestamp = 3, message = ''0123456789''\<rparr>"

definition rec_big :: log_record where
  "rec_big = \<lparr>name = ''A'', created_ms = 3, text_msg = ''0123456789''\<rparr>"

text \<open>The queue of a thread, with counter \<open>n\<close>, as seen after \<^verbatim>\<open>get\<close>.\<close>

definition queue_n :: "nat \<Rightarrow> queue" where
  "queue_n n = \<lparr>items = [], unfinished_tasks = n, put_log = []\<rparr>"

text \<open>A handler with queues on which the stream \<open>A\<close> has been created.\<close>

definition handler_A :: handler where
  "handler_A = (init ''g'' True 100 10)\<lparr>sequence_tokens := [''A'' \<mapsto> None]\<rparr>"

subsection \<open>What the thread's variables keep true\<close>

text \<open>The counter is the length of the batch, which is within the limit.\<close>

definition count_inv :: "int \<Rightarrow> sender \<Rightarrow> bool" where
  "count_inv mbc w =
     (cur_batch_msg_count w = int (length (cur_batch w))
      \<and> int (length (cur_batch w)) \<le> mbc)"

text \<open>The size is the summed cost of the batch, which is within the limit unless the
  batch is one message.\<close>

definition size_inv :: "int \<Rightarrow> sender \<Rightarrow> bool" where
  "size_inv mbs w =
     (cur_batch_size w = sum_list (map size_msg (cur_batch w))
      \<and> (sum_list (map size_msg (cur_batch w)) \<le> mbs \<or> length (cur_batch w) = 1))"

text \<open>One record is emitted to \<open>A\<close>, \<^verbatim>\<open>flush\<close> puts the sentinel, and the thread
  takes both items: it has submitted the message and left its loop.\<close>

definition handler_exited :: handler where
  "handler_exited =
     run accepting [Emit rec1, FlushPut, Step ''A'' False, Step ''A'' False]
       (init ''g'' True 100 10)"

section \<open>Properties\<close>

subsection \<open>\<^verbatim>\<open>_submit_batch\<close>: tokens, retry and failure\<close>

lemma rsplit_last_space:
  assumes a: "CHR '' '' \<notin> set t"
  shows "rsplit_last (pre @ CHR '' '' # t) = t"
proof -
  have "takeWhile (\<lambda>c. c \<noteq> CHR '' '') (rev t @ CHR '' '' # rev pre)
          = rev t @ takeWhile (\<lambda>c. c \<noteq> CHR '' '') (CHR '' '' # rev pre)"
    by (rule takeWhile_append2) (use a in auto)
  then have "takeWhile (\<lambda>c. c \<noteq> CHR '' '') (rev t @ CHR '' '' # rev pre) = rev t"
    by simp
  then show ?thesis by (simp add: rsplit_last_def)
qed

lemma rsplit_last_no_space:
  assumes a: "CHR '' '' \<notin> set t"
  shows "rsplit_last t = t"
proof -
  have "takeWhile (\<lambda>c. c \<noteq> CHR '' '') (rev t) = rev t"
    unfolding takeWhile_eq_all_conv using a by auto
  then show ?thesis unfolding rsplit_last_def by (simp only: rev_rev_ident)
qed

lemma submit_batch_first_call:
  "sequence_tokens h s = Some tok \<Longrightarrow>
   \<exists>r rest. new_calls h (snd (submit_batch c h b s)) =
     (\<lparr>logGroupName = log_group h, logStreamName = s, logEvents = b,
        sequenceToken = tok\<rparr>, r) # rest"
  by (auto simp: submit_batch_def call_put_def finish_def Let_def new_calls_def
           split: reply.splits option.splits sum.splits)

lemma submit_batch_ok:
  "submit_batch c h b s = (None, h1) \<Longrightarrow>
   \<exists>rq resp t. calls h1 \<noteq> [] \<and> last (calls h1) = (rq, Response resp)
      \<and> \<not> rejectedLogEventsInfo resp \<and> nextSequenceToken resp = Some t
      \<and> sequence_tokens h1 = (sequence_tokens h)(s \<mapsto> Some t)"
  by (auto simp: submit_batch_def call_put_def finish_def Let_def
           split: option.splits reply.splits sum.splits if_splits)

lemma submit_accepting_A:
  "submit_batch accepting handler_A [ev1] ''A'' =
     (None, handler_A\<lparr>calls := [(\<lparr>logGroupName = ''g'', logStreamName = ''A'',
                                   logEvents = [ev1], sequenceToken = None\<rparr>,
                                 Response \<lparr>rejectedLogEventsInfo = False,
                                           nextSequenceToken = Some ''t''\<rparr>)],
                       sequence_tokens := [''A'' \<mapsto> Some ''t'']\<rparr>)"
  by (simp add: submit_batch_def accepting_def handler_A_def init_def call_put_def
                finish_def Let_def)

lemma submit_refusing_A:
  "submit_batch refusing handler_A [ev1] ''A'' =
     (Some (TransportError ''down''),
      handler_A\<lparr>calls := [(\<lparr>logGroupName = ''g'', logStreamName = ''A'',
                            logEvents = [ev1], sequenceToken = None\<rparr>,
                          Raises (TransportError ''down''))]\<rparr>)"
  by (simp add: submit_batch_def refusing_def handler_A_def init_def call_put_def Let_def)

text \<open>
  Claim C9. When \<^verbatim>\<open>_submit_batch\<close> raises, whatever the reason (an error of the
  first call that is not retried, an error of the retry, a response with
  \<^verbatim>\<open>rejectedLogEventsInfo\<close>, a missing key), the token store is as it was. When it
  returns, the last call was answered by a response without rejected events, and the
  store differs from the old one only at this stream, which now holds that response's
  \<^verbatim>\<open>nextSequenceToken\<close>.
\<close>

theorem submit_batch_token_store:
  assumes "submit_batch c h batch s = (r, h')"
  shows "(r \<noteq> None \<longrightarrow> sequence_tokens h' = sequence_tokens h) \<and>
         (r = None \<longrightarrow>
            (\<exists>rq resp t. calls h' \<noteq> [] \<and> last (calls h') = (rq, Response resp)
               \<and> \<not> rejectedLogEventsInfo resp \<and> nextSequenceToken resp = Some t
               \<and> sequence_tokens h' = (sequence_tokens h)(s \<mapsto> Some t)))"
  using assms
  by (auto simp: submit_batch_def call_put_def finish_def Let_def
           split: option.splits reply.splits sum.splits if_splits)

theorem submit_batch_token_store_witness:
  "sequence_tokens (snd (submit_batch refusing handler_A [ev1] ''A''))
     = sequence_tokens handler_A
   \<and> sequence_tokens (snd (submit_batch accepting handler_A [ev1] ''A'')) ''A''
     = Some (Some ''t'')"
proof -
  have "sequence_tokens (snd (submit_batch refusing handler_A [ev1] ''A''))
          = sequence_tokens handler_A"
    using submit_batch_token_store [OF submit_refusing_A] by (simp add: submit_refusing_A)
  moreover have "sequence_tokens (snd (submit_batch accepting handler_A [ev1] ''A'')) ''A''
          = Some (Some ''t'')"
    using submit_batch_token_store [OF submit_accepting_A]
    by (auto simp: submit_accepting_A)
  ultimately show ?thesis by simp
qed

text \<open>
  Claim C3, as amended. Let the first call of \<^verbatim>\<open>put_log_events\<close> raise \<open>e\<close>.
  If \<open>e\<close> is a \<^verbatim>\<open>ClientError\<close> whose code is
  \<^verbatim>\<open>DataAlreadyAcceptedException\<close> or \<^verbatim>\<open>InvalidSequenceTokenException\<close> and whose
  message ends in a space followed by \<open>t\<close>, where \<open>t\<close> has no space, then exactly one
  more call is made, for the same batch with the token \<open>t\<close>, and an error of that call
  leaves the method. If \<open>e\<close> is of no such class, \<open>e\<close> itself leaves the method after
  that single call.
\<close>

theorem stale_token_retry:
  assumes "sequence_tokens h s = Some tok"
    and "rq = \<lparr>logGroupName = log_group h, logStreamName = s, logEvents = batch,
               sequenceToken = tok\<rparr>"
    and "put_log_events c (map fst (calls h)) rq = Raises e"
  shows "(\<forall>code pre t. e = ClientError (Some code) (Some (pre @ CHR '' '' # t))
             \<and> code \<in> {''DataAlreadyAcceptedException'', ''InvalidSequenceTokenException''}
             \<and> CHR '' '' \<notin> set t \<longrightarrow>
           (let rq2 = rq\<lparr>sequenceToken := Some t\<rparr>;
                r2 = put_log_events c (map fst (calls h) @ [rq]) rq2
            in new_calls h (snd (submit_batch c h batch s)) = [(rq, Raises e), (rq2, r2)]
               \<and> (\<forall>e2. r2 = Raises e2 \<longrightarrow> fst (submit_batch c h batch s) = Some e2)))
       \<and> (\<not> stale_token_error e \<longrightarrow>
            submit_batch c h batch s = (Some e, h\<lparr>calls := calls h @ [(rq, Raises e)]\<rparr>))"
proof (intro conjI allI impI)
  fix code pre t
  assume a: "e = ClientError (Some code) (Some (pre @ CHR '' '' # t))
             \<and> code \<in> {''DataAlreadyAcceptedException'', ''InvalidSequenceTokenException''}
             \<and> CHR '' '' \<notin> set t"
  then have rec: "recover e = Inr t"
    by (auto simp: rsplit_last_space)
  show "let rq2 = rq\<lparr>sequenceToken := Some t\<rparr>;
            r2 = put_log_events c (map fst (calls h) @ [rq]) rq2
        in new_calls h (snd (submit_batch c h batch s)) = [(rq, Raises e), (rq2, r2)]
           \<and> (\<forall>e2. r2 = Raises e2 \<longrightarrow> fst (submit_batch c h batch s) = Some e2)"
    using assms rec
    by (auto simp: submit_batch_def call_put_def finish_def Let_def new_calls_def
             split: reply.splits option.splits)
next
  assume "\<not> stale_token_error e"
  then have "recover e = Inl e"
    by (cases e) auto
  then show "submit_batch c h batch s = (Some e, h\<lparr>calls := calls h @ [(rq, Raises e)]\<rparr>)"
    using assms by (simp add: submit_batch_def call_put_def Let_def)
qed

text \<open>Scenario C of the specification: the retry carries the token \<open>49\<close>.\<close>

theorem stale_token_retry_witness:
  "map (sequenceToken \<circ> fst)
     (new_calls handler_A
        (snd (submit_batch (stale_first ''expected sequence token is 49'') handler_A
                [ev1] ''A'')))
   = [None, Some ''49'']"
proof -
  let ?c = "stale_first ''expected sequence token is 49''"
  let ?rq = "\<lparr>logGroupName = log_group handler_A, logStreamName = ''A'',
              logEvents = [ev1], sequenceToken = None\<rparr>"
  let ?e = "ClientError (Some ''InvalidSequenceTokenException'')
              (Some (''expected sequence token is'' @ CHR '' '' # ''49''))"
  have 1: "sequence_tokens handler_A ''A'' = Some None"
    by (simp add: handler_A_def)
  have 2: "put_log_events ?c (map fst (calls handler_A)) ?rq = Raises ?e"
    by (simp add: stale_first_def handler_A_def init_def)
  have 3: "CHR '' '' \<notin> set ''49''" by simp
  from stale_token_retry [OF 1 refl 2] 3
  have "let rq2 = ?rq\<lparr>sequenceToken := Some ''49''\<rparr>;
            r2 = put_log_events ?c (map fst (calls handler_A) @ [?rq]) rq2
        in new_calls handler_A (snd (submit_batch ?c handler_A [ev1] ''A''))
             = [(?rq, Raises ?e), (rq2, r2)]
           \<and> (\<forall>e2. r2 = Raises e2 \<longrightarrow> fst (submit_batch ?c handler_A [ev1] ''A'') = Some e2)"
    by blast
  then show ?thesis by (simp add: Let_def)
qed

text \<open>
  The claim as worded fails where the message's last whitespace is not a space: the text
  after the last whitespace of \<open>token is:<TAB>49\<close> is \<open>49\<close>, and the retry carries
  \<open>is:<TAB>49\<close>.
\<close>

theorem stale_token_whitespace_counterexample:
  "after_last_whitespace (''token is:'' @ [CHR 0x09] @ ''49'') = ''49''
   \<and> map (sequenceToken \<circ> fst)
       (calls (snd (submit_batch (stale_first (''token is:'' @ [CHR 0x09] @ ''49''))
                      handler_A [ev1] ''A'')))
     = [None, Some (''is:'' @ [CHR 0x09] @ ''49'')]"
  by (simp add: after_last_whitespace_def is_whitespace_def submit_batch_def call_put_def
                finish_def stale_first_def handler_A_def init_def rsplit_last_def Let_def)

text \<open>
  Claim C8, as amended. With queues, \<^verbatim>\<open>emit\<close> never calls \<^verbatim>\<open>put_log_events\<close>,
  and raises only what the creation of a new stream raises. Without queues, \<^verbatim>\<open>emit\<close>
  is the call of \<^verbatim>\<open>_submit_batch\<close> on the one message, with what that call raises
  and the state it leaves: on the handler as it is for a stream that exists, and for a
  new stream on the handler with the stream's token set to \<^verbatim>\<open>None\<close>, unless the
  creation of the stream raises.
\<close>

theorem emit_errors:
  "(use_queues h \<longrightarrow>
      calls (snd (emit c h r)) = calls h
      \<and> (fst (emit c h r) = None
          \<or> (name r \<notin> dom (sequence_tokens h)
              \<and> fst (emit c h r)
                  = idempotent_create (create_log_stream c (log_group h) (name r)))))
   \<and> (\<not> use_queues h \<longrightarrow>
        emit c h r
          = (if name r \<in> dom (sequence_tokens h)
             then submit_batch c h
                    [\<lparr>timestamp = created_ms r, message = text_msg r\<rparr>] (name r)
             else (case idempotent_create (create_log_stream c (log_group h) (name r)) of
                     Some e \<Rightarrow> (Some e, h)
                   | None \<Rightarrow>
                       submit_batch c
                         (h\<lparr>sequence_tokens := (sequence_tokens h)(name r \<mapsto> None)\<rparr>)
                         [\<lparr>timestamp = created_ms r, message = text_msg r\<rparr>] (name r))))"
  by (auto simp: emit_def Let_def split: option.splits prod.splits if_splits)

theorem emit_errors_witness:
  "calls (snd (emit refusing handler_A rec1)) = []
   \<and> fst (emit refusing handler_A rec1) = None
   \<and> fst (emit refusing (handler_A\<lparr>use_queues := False\<rparr>) rec1)
       = Some (TransportError ''down'')
   \<and> fst (emit accepting (init ''g'' False 100 10) rec1) = None"
proof -
  have q: "use_queues handler_A" and n: "name rec1 \<in> dom (sequence_tokens handler_A)"
    and c0: "calls handler_A = []"
    by (simp_all add: handler_A_def init_def rec1_def)
  from emit_errors [of handler_A refusing rec1] q n c0
  have a: "calls (snd (emit refusing handler_A rec1)) = []
           \<and> fst (emit refusing handler_A rec1) = None"
    by auto
  have "\<not> use_queues (handler_A\<lparr>use_queues := False\<rparr>)"
    and n': "name rec1 \<in> dom (sequence_tokens (handler_A\<lparr>use_queues := False\<rparr>))"
    using n by simp_all
  with emit_errors [of "handler_A\<lparr>use_queues := False\<rparr>" refusing rec1]
  have "emit refusing (handler_A\<lparr>use_queues := False\<rparr>) rec1
          = submit_batch refusing (handler_A\<lparr>use_queues := False\<rparr>)
              [\<lparr>timestamp = created_ms rec1, message = text_msg rec1\<rparr>] (name rec1)"
    by simp
  then have b: "fst (emit refusing (handler_A\<lparr>use_queues := False\<rparr>) rec1)
               = Some (TransportError ''down'')"
    by (simp add: submit_batch_def refusing_def handler_A_def init_def rec1_def
                  call_put_def Let_def)
  have "\<not> use_queues (init ''g'' False 100 10)"
    and "name rec1 \<notin> dom (sequence_tokens (init ''g'' False 100 10))"
    and "idempotent_create (create_log_stream accepting
           (log_group (init ''g'' False 100 10)) (name rec1)) = None"
    by (simp_all add: init_def accepting_def idempotent_create_def)
  with emit_errors [of "init ''g'' False 100 10" accepting rec1]
  have "emit accepting (init ''g'' False 100 10) rec1
          = submit_batch accepting
              ((init ''g'' False 100 10)\<lparr>sequence_tokens :=
                  (sequence_tokens (init ''g'' False 100 10))(name rec1 \<mapsto> None)\<rparr>)
              [\<lparr>timestamp = created_ms rec1, message = text_msg rec1\<rparr>] (name rec1)"
    by simp
  then have "fst (emit accepting (init ''g'' False 100 10) rec1) = None"
    by (simp add: submit_batch_def accepting_def init_def rec1_def call_put_def
                  finish_def Let_def)
  with a b show ?thesis by simp
qed

text \<open>
  The claim as worded fails without queues: a delivery error of the synchronous
  submission leaves \<^verbatim>\<open>emit\<close>.
\<close>

theorem emit_sync_counterexample:
  "fst (emit refusing (init ''g'' False 100 10) rec1) = Some (TransportError ''down'')"
  by (simp add: emit_def refusing_def init_def rec1_def idempotent_create_def
                submit_batch_def call_put_def Let_def)

subsection \<open>\<^verbatim>\<open>batch_sender\<close>: what is submitted\<close>

lemma submit_batch_calls:
  "\<exists>xs. calls (snd (submit_batch c h b s)) = calls h @ xs
        \<and> (\<forall>x\<in>set xs. logEvents (fst x) = b)"
  by (auto simp: submit_batch_def call_put_def finish_def Let_def
           split: option.splits reply.splits sum.splits)

lemma loop_body_calls:
  assumes "loop_body c s mbs mbc g late (w, q, h) = (w', q', h')"
  shows "\<exists>xs. calls h' = calls h @ xs \<and> (\<forall>x\<in>set xs. logEvents (fst x) = cur_batch w)"
proof (cases g)
  case Empty
  with assms show ?thesis by (simp add: loop_body_def)
next
  case (Got x)
  show ?thesis
  proof (cases "closes mbs mbc late (w\<lparr>msg := Some x\<rparr>) x")
    case True
    obtain e h1 where sb: "submit_batch c h (cur_batch w) s = (e, h1)"
      by (cases "submit_batch c h (cur_batch w) s")
    with assms Got True have "h' = h1"
      by (auto simp: loop_body_def Let_def split: option.splits)
    with submit_batch_calls [of c h "cur_batch w" s] sb show ?thesis by simp
  next
    case False
    with assms Got have "h' = h"
      by (auto simp: loop_body_def Let_def split: option.splits qitem.splits)
    then show ?thesis by simp
  qed
qed

lemma batch_sender_calls:
  assumes pres: "\<And>g late w q h w' q' h'. I w \<Longrightarrow>
            loop_body c s mbs mbc g late (w, q, h) = (w', q', h') \<Longrightarrow> I w'"
    and good: "\<And>w. I w \<Longrightarrow> P (cur_batch w)"
  shows "I w \<Longrightarrow> batch_sender c s mbs mbc evs (w, q, h) = (w', q', h') \<Longrightarrow>
         \<exists>xs. calls h' = calls h @ xs \<and> (\<forall>x\<in>set xs. P (logEvents (fst x)))"
proof (induction evs arbitrary: w q h)
  case Nil
  then show ?case by simp
next
  case (Cons ev evs)
  obtain g late where ev: "ev = (g, late)" by (cases ev)
  show ?case
  proof (cases "status w = Running")
    case False
    with Cons.prems ev show ?thesis by simp
  next
    case True
    obtain w1 q1 h1 where lb: "loop_body c s mbs mbc g late (w, q, h) = (w1, q1, h1)"
      by (cases "loop_body c s mbs mbc g late (w, q, h)")
    from pres [OF Cons.prems(1) lb] have i1: "I w1" .
    from Cons.prems(2) ev True lb
    have "batch_sender c s mbs mbc evs (w1, q1, h1) = (w', q', h')" by simp
    from Cons.IH [OF i1 this] obtain ys where
      ys: "calls h' = calls h1 @ ys" "\<forall>x\<in>set ys. P (logEvents (fst x))" by blast
    from loop_body_calls [OF lb] obtain xs where
      xs: "calls h1 = calls h @ xs" "\<forall>x\<in>set xs. logEvents (fst x) = cur_batch w" by blast
    from xs good [OF Cons.prems(1)] have "\<forall>x\<in>set xs. P (logEvents (fst x))" by simp
    with xs ys have "calls h' = calls h @ (xs @ ys) \<and> (\<forall>x\<in>set (xs @ ys). P (logEvents (fst x)))"
      by auto
    then show ?thesis by blast
  qed
qed

lemma loop_body_count_inv:
  assumes "1 \<le> mbc" and "count_inv mbc w"
    and "loop_body c s mbs mbc g late (w, q, h) = (w', q', h')"
  shows "count_inv mbc w'"
  using assms
  by (auto simp: loop_body_def Let_def count_inv_def while_head_def
           split: get_result.splits option.splits qitem.splits if_splits prod.splits)

lemma loop_body_size_inv:
  assumes "0 \<le> mbs" and "size_inv mbs w"
    and "loop_body c s mbs mbc g late (w, q, h) = (w', q', h')"
  shows "size_inv mbs w'"
  using assms
  by (auto simp: loop_body_def Let_def size_inv_def while_head_def
           split: get_result.splits option.splits qitem.splits if_splits prod.splits)

lemma new_sender_count_inv: "1 \<le> mbc \<Longrightarrow> count_inv mbc new_sender"
  by (simp add: new_sender_def while_head_def count_inv_def)

lemma new_sender_size_inv: "0 \<le> mbs \<Longrightarrow> size_inv mbs new_sender"
  by (simp add: new_sender_def while_head_def size_inv_def)

lemma batch_sender_inv:
  assumes pres: "\<And>g late w q h w' q' h'. I w \<Longrightarrow>
            loop_body c s mbs mbc g late (w, q, h) = (w', q', h') \<Longrightarrow> I w'"
  shows "I w \<Longrightarrow> batch_sender c s mbs mbc evs (w, q, h) = (w', q', h') \<Longrightarrow> I w'"
proof (induction evs arbitrary: w q h)
  case Nil
  then show ?case by simp
next
  case (Cons ev evs)
  obtain g late where ev: "ev = (g, late)" by (cases ev)
  show ?case
  proof (cases "status w = Running")
    case False
    with Cons.prems ev show ?thesis by simp
  next
    case True
    obtain w1 q1 h1 where lb: "loop_body c s mbs mbc g late (w, q, h) = (w1, q1, h1)"
      by (cases "loop_body c s mbs mbc g late (w, q, h)")
    from Cons.prems(2) ev True lb
    have "batch_sender c s mbs mbc evs (w1, q1, h1) = (w', q', h')" by simp
    from Cons.IH [OF pres [OF Cons.prems(1) lb] this] show ?thesis .
  qed
qed

lemma size_sum_nonneg: "0 \<le> sum_list (map size_msg b)"
  by (induction b) (auto simp: size_msg_def)

lemma new_calls_append: "calls h' = calls h @ xs \<Longrightarrow> new_calls h h' = xs"
  by (simp add: new_calls_def)

lemmas run_defs = loop_body_def submit_batch_def call_put_def finish_def while_head_def
  new_sender_def task_done_def queue_n_def size_msg_def new_calls_def Let_def

lemmas example_defs = accepting_def refusing_def handler_A_def init_def ev1_def ev2_def
  ev_big_def rec1_def

text \<open>
  Claim C5. With \<^verbatim>\<open>max_batch_count\<close> at least 1, every request that a batch-sender
  thread makes, from its start and whatever its queue delivers and its clock says,
  holds at most \<^verbatim>\<open>max_batch_count\<close> messages.
\<close>

theorem batch_count_bound:
  assumes "1 \<le> mbc"
    and "batch_sender c s mbs mbc evs (new_sender, q, h) = (w', q', h')"
  shows "\<forall>x\<in>set (new_calls h h'). int (length (logEvents (fst x))) \<le> mbc"
proof -
  have "\<exists>xs. calls h' = calls h @ xs
          \<and> (\<forall>x\<in>set xs. int (length (logEvents (fst x))) \<le> mbc)"
  proof (rule batch_sender_calls [where I = "count_inv mbc"
            and P = "\<lambda>b. int (length b) \<le> mbc", OF _ _ _ assms(2)])
    show "\<And>g late w q h w' q' h'. count_inv mbc w \<Longrightarrow>
            loop_body c s mbs mbc g late (w, q, h) = (w', q', h') \<Longrightarrow> count_inv mbc w'"
      using assms(1) by (rule loop_body_count_inv)
    show "\<And>w. count_inv mbc w \<Longrightarrow> int (length (cur_batch w)) \<le> mbc"
      by (simp add: count_inv_def)
    show "count_inv mbc new_sender"
      using assms(1) by (rule new_sender_count_inv)
  qed
  then show ?thesis by (auto simp: new_calls_def)
qed

theorem batch_count_bound_witness:
  "map (logEvents \<circ> fst) (new_calls handler_A (snd (snd (batch_sender accepting ''A'' 30 1
       [(Got (Msg ev1), False), (Got (Msg ev2), False), (Got END, False)]
       (new_sender, queue_n 3, handler_A))))) = [[ev1], [ev2]]
   \<and> int (length (logEvents (fst (hd (new_calls handler_A (snd (snd (batch_sender accepting
       ''A'' 30 1 [(Got (Msg ev1), False), (Got (Msg ev2), False), (Got END, False)]
       (new_sender, queue_n 3, handler_A))))))))) \<le> 1"
proof -
  let ?R = "batch_sender accepting ''A'' 30 1
       [(Got (Msg ev1), False), (Got (Msg ev2), False), (Got END, False)]
       (new_sender, queue_n 3, handler_A)"
  have one: "(1::int) \<le> 1" by simp
  have run: "?R = (fst ?R, fst (snd ?R), snd (snd ?R))" by simp
  have m: "map (logEvents \<circ> fst) (new_calls handler_A (snd (snd ?R))) = [[ev1], [ev2]]"
    by (simp add: run_defs example_defs)
  then have "hd (new_calls handler_A (snd (snd ?R))) \<in> set (new_calls handler_A (snd (snd ?R)))"
    by (cases "new_calls handler_A (snd (snd ?R))") auto
  with batch_count_bound [OF one run]
  have "int (length (logEvents (fst (hd (new_calls handler_A (snd (snd ?R))))))) \<le> 1"
    by blast
  with m show ?thesis by blast
qed

text \<open>
  Claim C1, at the input where it fails. A thread holds one message when \<^verbatim>\<open>get\<close>
  times out: it ends with \<^verbatim>\<open>AttributeError\<close>, the message is in its batch, no
  request has been made, and nothing the queue delivers later changes that.
\<close>

theorem timeout_loses_batch:
  "batch_sender accepting ''A'' 100 10 ([(Got (Msg ev1), False), (Empty, True)] @ evs)
     (new_sender, queue_n 1, handler_A)
   = (\<lparr>msg = Some (Msg ev1), cur_batch = [ev1], cur_batch_size = 27,
        cur_batch_msg_count = 1, status = Died AttributeError\<rparr>,
      queue_n 0, handler_A)
   \<and> calls handler_A = []"
  by (cases evs) (auto simp: run_defs example_defs)

subsection \<open>The handler and its threads: what a step leaves alone\<close>

lemma submit_batch_frame:
  assumes "submit_batch c h b s = (e, h')"
  shows "use_queues h' = use_queues h \<and> queues h' = queues h \<and> threads h' = threads h
         \<and> max_batch_size h' = max_batch_size h \<and> max_batch_count h' = max_batch_count h
         \<and> log_group h' = log_group h"
  using assms
  by (auto simp: submit_batch_def call_put_def finish_def Let_def
           split: option.splits reply.splits sum.splits if_splits)

lemma submit_batch_stream:
  "\<exists>xs. calls (snd (submit_batch c h b s)) = calls h @ xs
        \<and> (\<forall>x\<in>set xs. logStreamName (fst x) = s)"
  by (auto simp: submit_batch_def call_put_def finish_def Let_def
           split: option.splits reply.splits sum.splits)

lemma loop_body_frame:
  assumes "loop_body c s mbs mbc g late (w, q, h) = (w', q', h')"
  shows "use_queues h' = use_queues h \<and> queues h' = queues h \<and> threads h' = threads h
         \<and> max_batch_size h' = max_batch_size h \<and> max_batch_count h' = max_batch_count h
         \<and> log_group h' = log_group h"
proof (cases g)
  case Empty
  with assms show ?thesis by (simp add: loop_body_def)
next
  case (Got x)
  show ?thesis
  proof (cases "closes mbs mbc late (w\<lparr>msg := Some x\<rparr>) x")
    case True
    obtain e h1 where sb: "submit_batch c h (cur_batch w) s = (e, h1)"
      by (cases "submit_batch c h (cur_batch w) s")
    with assms Got True have "h' = h1"
      by (auto simp: loop_body_def Let_def split: option.splits)
    with submit_batch_frame [OF sb] show ?thesis by simp
  next
    case False
    with assms Got have "h' = h"
      by (auto simp: loop_body_def Let_def split: option.splits qitem.splits)
    then show ?thesis by simp
  qed
qed

lemma loop_body_stream:
  assumes "loop_body c s mbs mbc g late (w, q, h) = (w', q', h')"
  shows "\<exists>xs. calls h' = calls h @ xs \<and> (\<forall>x\<in>set xs. logStreamName (fst x) = s)"
proof (cases g)
  case Empty
  with assms show ?thesis by (simp add: loop_body_def)
next
  case (Got x)
  show ?thesis
  proof (cases "closes mbs mbc late (w\<lparr>msg := Some x\<rparr>) x")
    case True
    obtain e h1 where sb: "submit_batch c h (cur_batch w) s = (e, h1)"
      by (cases "submit_batch c h (cur_batch w) s")
    with assms Got True have "h' = h1"
      by (auto simp: loop_body_def Let_def split: option.splits)
    with submit_batch_stream [of c h "cur_batch w" s] sb show ?thesis by simp
  next
    case False
    with assms Got have "h' = h"
      by (auto simp: loop_body_def Let_def split: option.splits qitem.splits)
    then show ?thesis by simp
  qed
qed

lemma thread_step_other:
  assumes "s' \<noteq> s"
  shows "use_queues (thread_step c s' late h) = use_queues h
         \<and> queues (thread_step c s' late h) s = queues h s
         \<and> threads (thread_step c s' late h) s = threads h s
         \<and> stream_calls s (thread_step c s' late h) = stream_calls s h"
proof (cases "\<exists>w q. threads h s' = Some w \<and> queues h s' = Some q \<and> status w = Running")
  case False
  then have "thread_step c s' late h = h"
    by (auto simp: thread_step_def split: option.splits)
  then show ?thesis by simp
next
  case True
  then obtain w q where wq: "threads h s' = Some w" "queues h s' = Some q" "status w = Running"
    by blast
  obtain g q0 where g: "(case items q of [] \<Rightarrow> (Empty, q) | x # xs \<Rightarrow> (Got x, q\<lparr>items := xs\<rparr>)) = (g, q0)"
    by (cases "case items q of [] \<Rightarrow> (Empty, q) | x # xs \<Rightarrow> (Got x, q\<lparr>items := xs\<rparr>)")
  obtain w' q' h' where lb:
    "loop_body c s' (max_batch_size h) (max_batch_count h) g late (w, q0, h) = (w', q', h')"
    by (cases "loop_body c s' (max_batch_size h) (max_batch_count h) g late (w, q0, h)")
  from wq g lb have ts: "thread_step c s' late h
      = h'\<lparr>threads := (threads h')(s' \<mapsto> w'), queues := (queues h')(s' \<mapsto> q')\<rparr>"
    by (simp add: thread_step_def)
  from loop_body_stream [OF lb] obtain xs where
    xs: "calls h' = calls h @ xs" "\<forall>x\<in>set xs. logStreamName (fst x) = s'" by blast
  with assms have "filter (\<lambda>x. logStreamName (fst x) = s) xs = []"
    by (auto simp: filter_empty_conv)
  with xs ts have "stream_calls s (thread_step c s' late h) = stream_calls s h"
    by (simp add: stream_calls_def)
  with ts loop_body_frame [OF lb] assms show ?thesis by simp
qed

lemma thread_step_stopped:
  assumes "threads h s = Some w" and "status w \<noteq> Running"
  shows "thread_step c s late h = h"
  using assms by (auto simp: thread_step_def split: option.splits)

lemma emit_queued:
  assumes "use_queues h"
  shows "use_queues (snd (emit c h r)) \<and> calls (snd (emit c h r)) = calls h
         \<and> (\<forall>s. s \<noteq> name r \<longrightarrow> queues (snd (emit c h r)) s = queues h s
                                \<and> threads (snd (emit c h r)) s = threads h s)
         \<and> (\<forall>q. queues h (name r) = Some q \<longrightarrow>
               threads (snd (emit c h r)) = threads h
               \<and> (queues (snd (emit c h r)) (name r) = Some q
                  \<or> queues (snd (emit c h r)) (name r)
                      = Some (put q (Msg \<lparr>timestamp = created_ms r, message = text_msg r\<rparr>)))
               \<and> (name r \<in> dom (sequence_tokens h) \<longrightarrow>
                    queues (snd (emit c h r)) (name r)
                      = Some (put q (Msg \<lparr>timestamp = created_ms r, message = text_msg r\<rparr>))))"
  using assms
  by (auto simp: emit_def Let_def split: option.splits prod.splits if_splits)

lemmas system_defs = emit_def thread_step_def flush_put_def put_def idempotent_create_def
  join_returns_def stream_calls_def delivered_def


lemma handler_exited_A:
  "use_queues handler_exited"
  "threads handler_exited ''A'' =
     Some \<lparr>msg = Some END, cur_batch = [ev1], cur_batch_size = 27, cur_batch_msg_count = 1,
           status = Exited\<rparr>"
  "queues handler_exited ''A'' =
     Some \<lparr>items = [], unfinished_tasks = 0, put_log = [Msg ev1, END]\<rparr>"
  "sequence_tokens handler_exited ''A'' = Some (Some ''t'')"
  "map (logEvents \<circ> fst) (calls handler_exited) = [[ev1]]"
  by (simp_all add: handler_exited_def system_defs run_defs example_defs)

lemma act_stopped:
  assumes "use_queues h" and "threads h s = Some w" and "status w \<noteq> Running"
    and "queues h s = Some q"
  shows "use_queues (act c a h) \<and> threads (act c a h) s = Some w
         \<and> (\<exists>q'. queues (act c a h) s = Some q' \<and> prefix (items q) (items q'))
         \<and> stream_calls s (act c a h) = stream_calls s h"
proof (cases a)
  case (Emit r)
  show ?thesis
  proof (cases "name r = s")
    case True
    with emit_queued [OF assms(1), of c r] assms(2,4)
    have "use_queues (snd (emit c h r))" "calls (snd (emit c h r)) = calls h"
      "threads (snd (emit c h r)) = threads h"
      "queues (snd (emit c h r)) s = Some q
       \<or> queues (snd (emit c h r)) s
            = Some (put q (Msg \<lparr>timestamp = created_ms r, message = text_msg r\<rparr>))"
      by auto
    with Emit assms(2) show ?thesis
      by (auto simp: stream_calls_def put_def)
  next
    case False
    with emit_queued [OF assms(1), of c r] assms(2,4) Emit show ?thesis
      by (auto simp: stream_calls_def)
  qed
next
  case FlushPut
  with assms show ?thesis
    by (simp add: flush_put_def stream_calls_def put_def)
next
  case (Step s' late)
  show ?thesis
  proof (cases "s' = s")
    case True
    with thread_step_stopped [OF assms(2,3), of c late] Step assms show ?thesis by simp
  next
    case False
    with thread_step_other [OF False, of c late h] Step assms show ?thesis by simp
  qed
qed

lemma run_stopped:
  assumes "use_queues h" and "threads h s = Some w" and "status w \<noteq> Running"
    and "queues h s = Some q"
  shows "threads (run c as h) s = Some w
         \<and> (\<exists>q'. queues (run c as h) s = Some q' \<and> prefix (items q) (items q'))
         \<and> stream_calls s (run c as h) = stream_calls s h"
  using assms
proof (induction as arbitrary: h q)
  case Nil
  then show ?case by simp
next
  case (Cons a as)
  from act_stopped [OF Cons.prems, of c a] obtain q1 where
    1: "use_queues (act c a h)" "threads (act c a h) s = Some w"
       "queues (act c a h) s = Some q1" "prefix (items q) (items q1)"
       "stream_calls s (act c a h) = stream_calls s h"
    by blast
  from Cons.IH [OF 1(1) 1(2) Cons.prems(3) 1(3)] 1(4,5)
  show ?case by (auto intro: prefix_order.trans)
qed

lemma act_dom_queues: "dom (queues h) \<subseteq> dom (queues (act c a h))"
proof (cases a)
  case (Emit r)
  obtain e h1 where sb: "submit_batch c
      (h\<lparr>sequence_tokens := (sequence_tokens h)(name r \<mapsto> None)\<rparr>)
      [\<lparr>timestamp = created_ms r, message = text_msg r\<rparr>] (name r) = (e, h1)"
    by (cases "submit_batch c (h\<lparr>sequence_tokens := (sequence_tokens h)(name r \<mapsto> None)\<rparr>)
      [\<lparr>timestamp = created_ms r, message = text_msg r\<rparr>] (name r)")
  obtain e' h2 where sb2: "submit_batch c h
      [\<lparr>timestamp = created_ms r, message = text_msg r\<rparr>] (name r) = (e', h2)"
    by (cases "submit_batch c h [\<lparr>timestamp = created_ms r, message = text_msg r\<rparr>] (name r)")
  from submit_batch_frame [OF sb] submit_batch_frame [OF sb2] Emit sb sb2 show ?thesis
    by (auto simp: emit_def Let_def split: option.splits if_splits)
next
  case FlushPut
  then show ?thesis by (auto simp: flush_put_def)
next
  case (Step s late)
  show ?thesis
  proof (cases "\<exists>w q. threads h s = Some w \<and> queues h s = Some q \<and> status w = Running")
    case False
    then have "thread_step c s late h = h"
      by (auto simp: thread_step_def split: option.splits)
    with Step show ?thesis by simp
  next
    case True
    then obtain w q where wq: "threads h s = Some w" "queues h s = Some q" "status w = Running"
      by blast
    obtain g q0 where g: "(case items q of [] \<Rightarrow> (Empty, q)
                             | x # xs \<Rightarrow> (Got x, q\<lparr>items := xs\<rparr>)) = (g, q0)"
      by (cases "case items q of [] \<Rightarrow> (Empty, q) | x # xs \<Rightarrow> (Got x, q\<lparr>items := xs\<rparr>)")
    obtain w' q' h' where lb:
      "loop_body c s (max_batch_size h) (max_batch_count h) g late (w, q0, h) = (w', q', h')"
      by (cases "loop_body c s (max_batch_size h) (max_batch_count h) g late (w, q0, h)")
    from wq g lb have "thread_step c s late h
        = h'\<lparr>threads := (threads h')(s \<mapsto> w'), queues := (queues h')(s \<mapsto> q')\<rparr>"
      by (simp add: thread_step_def)
    with loop_body_frame [OF lb] Step show ?thesis by auto
  qed
qed

lemma run_dom_queues: "dom (queues h) \<subseteq> dom (queues (run c as h))"
proof (induction as arbitrary: h)
  case Nil
  show ?case by simp
next
  case (Cons a as)
  from act_dom_queues [of h c a] Cons [of "act c a h"] show ?case by auto
qed

lemma emit_no_thread:
  assumes "name r \<in> dom (queues h)"
  shows "threads (snd (emit c h r)) = threads h"
proof -
  obtain e h1 where sb: "submit_batch c
      (h\<lparr>sequence_tokens := (sequence_tokens h)(name r \<mapsto> None)\<rparr>)
      [\<lparr>timestamp = created_ms r, message = text_msg r\<rparr>] (name r) = (e, h1)"
    by (cases "submit_batch c (h\<lparr>sequence_tokens := (sequence_tokens h)(name r \<mapsto> None)\<rparr>)
      [\<lparr>timestamp = created_ms r, message = text_msg r\<rparr>] (name r)")
  obtain e' h2 where sb2: "submit_batch c h
      [\<lparr>timestamp = created_ms r, message = text_msg r\<rparr>] (name r) = (e', h2)"
    by (cases "submit_batch c h [\<lparr>timestamp = created_ms r, message = text_msg r\<rparr>] (name r)")
  from submit_batch_frame [OF sb] submit_batch_frame [OF sb2] assms sb sb2 show ?thesis
    by (auto simp: emit_def Let_def split: option.splits if_splits)
qed

text \<open>
  Claim C10. \<^verbatim>\<open>emit\<close> on a stream that has an entry in \<open>queues\<close> starts no thread,
  and no step of the handler or of its threads removes an entry. So when the thread of
  stream \<open>s\<close> has left its loop, a record emitted to \<open>s\<close> is put on the existing queue,
  and through everything that happens afterwards the thread stays as it is, the record
  stays on the queue behind what was there, and no request is made for \<open>s\<close>.
\<close>

theorem emit_after_exit:
  "(name r \<in> dom (queues h) \<longrightarrow> threads (snd (emit c h r)) = threads h)
   \<and> dom (queues h) \<subseteq> dom (queues (run c as h))
   \<and> (use_queues h \<and> threads h s = Some w \<and> status w = Exited \<and> queues h s = Some q
        \<and> s \<in> dom (sequence_tokens h) \<and> name r = s \<longrightarrow>
         threads (run c (Emit r # as) h) s = Some w
         \<and> (\<exists>q'. queues (run c (Emit r # as) h) s = Some q'
                \<and> prefix (items q @ [Msg \<lparr>timestamp = created_ms r, message = text_msg r\<rparr>])
                          (items q'))
         \<and> stream_calls s (run c (Emit r # as) h) = stream_calls s h)"
proof (intro conjI impI)
  show "name r \<in> dom (queues h) \<Longrightarrow> threads (snd (emit c h r)) = threads h"
    by (rule emit_no_thread)
  show "dom (queues h) \<subseteq> dom (queues (run c as h))"
    by (rule run_dom_queues)
next
  assume a: "use_queues h \<and> threads h s = Some w \<and> status w = Exited \<and> queues h s = Some q
        \<and> s \<in> dom (sequence_tokens h) \<and> name r = s"
  let ?h1 = "snd (emit c h r)"
  let ?q1 = "put q (Msg \<lparr>timestamp = created_ms r, message = text_msg r\<rparr>)"
  from a emit_queued [of h c r]
  have 1: "use_queues ?h1" "threads ?h1 s = Some w" "queues ?h1 s = Some ?q1"
    "calls ?h1 = calls h"
    by auto
  from a have 2: "status w \<noteq> Running" by simp
  from run_stopped [OF 1(1) 1(2) 2 1(3), of c as] 1(4)
  have "threads (run c as ?h1) s = Some w
         \<and> (\<exists>q'. queues (run c as ?h1) s = Some q' \<and> prefix (items ?q1) (items q'))
         \<and> stream_calls s (run c as ?h1) = stream_calls s h"
    by (simp add: stream_calls_def)
  then show "threads (run c (Emit r # as) h) s = Some w"
    and "\<exists>q'. queues (run c (Emit r # as) h) s = Some q'
                \<and> prefix (items q @ [Msg \<lparr>timestamp = created_ms r, message = text_msg r\<rparr>])
                          (items q')"
    and "stream_calls s (run c (Emit r # as) h) = stream_calls s h"
    by (simp_all add: put_def)
qed

theorem emit_after_exit_witness:
  "threads (run accepting [Emit rec1, Step ''A'' False, FlushPut, Step ''A'' True]
              handler_exited) ''A''
     = threads handler_exited ''A''
   \<and> map (logEvents \<circ> fst)
       (stream_calls ''A'' (run accepting [Emit rec1, Step ''A'' False, FlushPut, Step ''A'' True]
                              handler_exited)) = [[ev1]]
   \<and> map_option items
       (queues (run accepting [Emit rec1, Step ''A'' False, FlushPut, Step ''A'' True]
                  handler_exited) ''A'') = Some [Msg ev1, END]"
proof -
  let ?as = "[Step ''A'' False, FlushPut, Step ''A'' True]"
  let ?w = "\<lparr>msg = Some END, cur_batch = [ev1], cur_batch_size = 27, cur_batch_msg_count = 1,
           status = Exited\<rparr>"
  let ?q = "\<lparr>items = [], unfinished_tasks = 0, put_log = [Msg ev1, END]\<rparr>"
  have hyp: "use_queues handler_exited \<and> threads handler_exited ''A'' = Some ?w
      \<and> status ?w = Exited \<and> queues handler_exited ''A'' = Some ?q
      \<and> ''A'' \<in> dom (sequence_tokens handler_exited) \<and> name rec1 = ''A''"
    using handler_exited_A by (auto simp: rec1_def)
  from emit_after_exit [of rec1 handler_exited accepting ?as "''A''" ?w ?q] hyp
  have 1: "threads (run accepting (Emit rec1 # ?as) handler_exited) ''A'' = Some ?w"
    and 2: "stream_calls ''A'' (run accepting (Emit rec1 # ?as) handler_exited)
              = stream_calls ''A'' handler_exited"
    by blast+
  have 3: "map (logEvents \<circ> fst) (stream_calls ''A'' handler_exited) = [[ev1]]"
    by (simp add: handler_exited_def system_defs run_defs example_defs)
  have 4: "map_option items (queues (run accepting (Emit rec1 # ?as) handler_exited) ''A'')
             = Some [Msg ev1, END]"
    by (simp add: handler_exited_def system_defs run_defs example_defs)
  from 1 2 3 4 handler_exited_A(2) show ?thesis by simp
qed

subsection \<open>\<^verbatim>\<open>flush\<close>: what has been delivered when \<^verbatim>\<open>join\<close> returns\<close>

lemma put_thread_inv: "thread_inv w q D \<Longrightarrow> thread_inv w (put q x) D"
  by (auto simp: thread_inv_def put_def split: thread_status.splits)

lemma submit_batch_delivered:
  assumes "submit_batch c h b s = (None, h')"
  shows "delivered s h' = delivered s h @ b"
  using assms
  by (auto simp: submit_batch_def call_put_def finish_def Let_def delivered_def
                 stream_calls_def
           split: option.splits reply.splits sum.splits if_splits)

lemma timeout_thread_inv:
  assumes "thread_inv w q D" and "status w = Running" and "items q = []"
  shows "thread_inv (w\<lparr>status := Died AttributeError\<rparr>) q D"
  using assms by (auto simp: thread_inv_def)

lemma loop_body_thread_inv:
  assumes inv: "thread_inv w q (delivered s h)" and run: "status w = Running"
    and it: "items q = x # xs"
    and lb: "loop_body c s mbs mbc (Got x) late (w, q\<lparr>items := xs\<rparr>, h) = (w', q', h')"
  shows "thread_inv w' q' (delivered s h')"
proof (cases "closes mbs mbc late (w\<lparr>msg := Some x\<rparr>) x")
  case True
  obtain e h1 where sb: "submit_batch c h (cur_batch w) s = (e, h1)"
    by (cases "submit_batch c h (cur_batch w) s")
  show ?thesis
  proof (cases e)
    case (Some err)
    with lb True sb have "w' = w\<lparr>msg := Some x, status := Died err\<rparr>" "q' = q\<lparr>items := xs\<rparr>"
      by (auto simp: loop_body_def Let_def)
    with inv run it show ?thesis by (simp add: thread_inv_def)
  next
    case None
    from inv run it have u: "unfinished_tasks q = Suc (length xs)"
      by (simp add: thread_inv_def)
    with lb True sb None have w': "w' = while_head (w\<lparr>msg := Some x\<rparr>)"
      and q': "q' = q\<lparr>items := xs, unfinished_tasks := length xs\<rparr>" and h': "h' = h1"
      by (auto simp: loop_body_def Let_def task_done_def)
    from submit_batch_delivered sb None have d: "delivered s h1 = delivered s h @ cur_batch w"
      by simp
    from inv run it have p: "put_log q = map Msg (delivered s h @ cur_batch w) @ x # xs"
      by (simp add: thread_inv_def)
    from w' q' h' d p run show ?thesis
      by (cases x) (auto simp: thread_inv_def while_head_def)
  qed
next
  case False
  then obtain m where m: "x = Msg m" by (cases x) auto
  from inv run it have u: "unfinished_tasks q = Suc (length xs)"
    and p: "put_log q = map Msg (delivered s h @ cur_batch w) @ x # xs"
    by (simp_all add: thread_inv_def)
  with lb False m have "h' = h" "q' = q\<lparr>items := xs, unfinished_tasks := length xs\<rparr>"
    "cur_batch w' = cur_batch w @ [m]" "status w' = status w"
    by (auto simp: loop_body_def Let_def task_done_def)
  with p m run show ?thesis by (simp add: thread_inv_def)
qed

lemma loop_body_put_log:
  assumes "loop_body c s mbs mbc g late (w, q, h) = (w', q', h')"
  shows "put_log q' = put_log q \<and> items q' = items q"
proof (cases g)
  case Empty
  with assms show ?thesis by (simp add: loop_body_def)
next
  case (Got x)
  obtain e h1 where sb: "submit_batch c h (cur_batch w) s = (e, h1)"
    by (cases "submit_batch c h (cur_batch w) s")
  with assms Got show ?thesis
    by (auto simp: loop_body_def Let_def task_done_def
             split: option.splits qitem.splits if_splits)
qed
lemma emit_new_queue:
  assumes "use_queues h" and "queues h (name r) = None"
  shows "(queues (snd (emit c h r)) (name r) = None
          \<and> threads (snd (emit c h r)) (name r) = threads h (name r))
         \<or> (queues (snd (emit c h r)) (name r)
               = Some (put \<lparr>items = [], unfinished_tasks = 0, put_log = []\<rparr>
                         (Msg \<lparr>timestamp = created_ms r, message = text_msg r\<rparr>))
             \<and> threads (snd (emit c h r)) (name r) = Some new_sender)"
  using assms
  by (auto simp: emit_def Let_def split: option.splits prod.splits if_splits)

lemma new_sender_thread_inv:
  "thread_inv new_sender \<lparr>items = [], unfinished_tasks = 0, put_log = []\<rparr> []"
  by (simp add: thread_inv_def new_sender_def while_head_def)

lemma stream_inv_cong:
  assumes "queues h' s = queues h s" and "threads h' s = threads h s"
    and "stream_calls s h' = stream_calls s h"
  shows "stream_inv h' s = stream_inv h s"
  using assms by (auto simp: stream_inv_def delivered_def split: option.splits)

lemma emit_stream_inv:
  assumes uq: "use_queues h" and inv: "stream_inv h s"
  shows "stream_inv (snd (emit c h r)) s"
proof -
  let ?h' = "snd (emit c h r)"
  from emit_queued [OF uq, of c r] have calls: "calls ?h' = calls h"
    and other: "s \<noteq> name r \<Longrightarrow> queues ?h' s = queues h s \<and> threads ?h' s = threads h s"
    by auto
  from calls have sc: "stream_calls s ?h' = stream_calls s h" "delivered s ?h' = delivered s h"
    by (simp_all add: stream_calls_def delivered_def)
  show ?thesis
  proof (cases "s = name r")
    case False
    with other sc inv stream_inv_cong [of ?h' s h] show ?thesis by simp
  next
    case True
    show ?thesis
    proof (cases "queues h s")
      case None
      with inv have e: "threads h s = None" "stream_calls s h = []"
        by (simp_all add: stream_inv_def)
      then have d: "delivered s h = []" by (simp add: delivered_def)
      from emit_new_queue [OF uq, of r c] None True e sc d
        put_thread_inv [OF new_sender_thread_inv]
      show ?thesis by (auto simp: stream_inv_def)
    next
      case (Some q)
      with inv obtain w where w: "threads h s = Some w" "thread_inv w q (delivered s h)"
        by (auto simp: stream_inv_def split: option.splits)
      from emit_queued [OF uq, of c r] Some True
      have "threads ?h' = threads h"
        and "queues ?h' s = Some q
             \<or> queues ?h' s
                  = Some (put q (Msg \<lparr>timestamp = created_ms r, message = text_msg r\<rparr>))"
        by auto
      with w sc put_thread_inv [OF w(2)] show ?thesis
        by (auto simp: stream_inv_def)
    qed
  qed
qed

lemma flush_put_stream_inv:
  assumes "stream_inv h s"
  shows "stream_inv (flush_put h) s"
proof -
  have "delivered s (flush_put h) = delivered s h" "stream_calls s (flush_put h) = stream_calls s h"
    by (simp_all add: flush_put_def delivered_def stream_calls_def)
  with assms put_thread_inv show ?thesis
    by (auto simp: stream_inv_def flush_put_def split: option.splits)
qed

lemma thread_step_stream_inv:
  assumes inv: "stream_inv h s"
  shows "stream_inv (thread_step c s' late h) s"
proof (cases "s' = s")
  case False
  from thread_step_other [OF False, of c late h] inv
    stream_inv_cong [of "thread_step c s' late h" s h]
  show ?thesis by simp
next
  case True
  show ?thesis
  proof (cases "\<exists>w q. threads h s = Some w \<and> queues h s = Some q \<and> status w = Running")
    case False
    then have "thread_step c s late h = h"
      by (auto simp: thread_step_def split: option.splits)
    with inv True show ?thesis by simp
  next
    case ex: True
    then obtain w q where wq: "threads h s = Some w" "queues h s = Some q" "status w = Running"
      by blast
    with inv have ti: "thread_inv w q (delivered s h)"
      by (simp add: stream_inv_def)
    show ?thesis
    proof (cases "items q")
      case Nil
      with wq have ts: "thread_step c s late h
          = h\<lparr>threads := (threads h)(s \<mapsto> w\<lparr>status := Died AttributeError\<rparr>),
              queues := (queues h)(s \<mapsto> q)\<rparr>"
        by (simp add: thread_step_def loop_body_def)
      then have "delivered s (thread_step c s late h) = delivered s h"
        by (simp add: delivered_def stream_calls_def)
      with ts timeout_thread_inv [OF ti wq(3) Nil] True show ?thesis
        by (simp add: stream_inv_def)
    next
      case (Cons x xs)
      obtain w' q' h' where lb:
        "loop_body c s (max_batch_size h) (max_batch_count h) (Got x) late
           (w, q\<lparr>items := xs\<rparr>, h) = (w', q', h')"
        by (cases "loop_body c s (max_batch_size h) (max_batch_count h) (Got x) late
           (w, q\<lparr>items := xs\<rparr>, h)")
      with wq Cons have ts: "thread_step c s late h
          = h'\<lparr>threads := (threads h')(s \<mapsto> w'), queues := (queues h')(s \<mapsto> q')\<rparr>"
        by (simp add: thread_step_def)
      then have "delivered s (thread_step c s late h) = delivered s h'"
        by (simp add: delivered_def stream_calls_def)
      with ts loop_body_thread_inv [OF ti wq(3) Cons lb] True show ?thesis
        by (simp add: stream_inv_def)
    qed
  qed
qed

lemma act_handler_inv:
  assumes "handler_inv h"
  shows "handler_inv (act c a h)"
proof (cases a)
  case (Emit r)
  with assms emit_queued [of h c r] emit_stream_inv [of h _ c r] show ?thesis
    by (simp add: handler_inv_def)
next
  case FlushPut
  with assms flush_put_stream_inv show ?thesis
    by (simp add: handler_inv_def flush_put_def)
next
  case (Step s' late)
  have "use_queues (thread_step c s' late h) = use_queues h"
  proof (cases "\<exists>w q. threads h s' = Some w \<and> queues h s' = Some q \<and> status w = Running")
    case False
    then have "thread_step c s' late h = h"
      by (auto simp: thread_step_def split: option.splits)
    then show ?thesis by simp
  next
    case True
    then obtain w q where wq: "threads h s' = Some w" "queues h s' = Some q" "status w = Running"
      by blast
    obtain g q0 where g: "(case items q of [] \<Rightarrow> (Empty, q)
                             | x # xs \<Rightarrow> (Got x, q\<lparr>items := xs\<rparr>)) = (g, q0)"
      by (cases "case items q of [] \<Rightarrow> (Empty, q) | x # xs \<Rightarrow> (Got x, q\<lparr>items := xs\<rparr>)")
    obtain w' q' h' where lb:
      "loop_body c s' (max_batch_size h) (max_batch_count h) g late (w, q0, h) = (w', q', h')"
      by (cases "loop_body c s' (max_batch_size h) (max_batch_count h) g late (w, q0, h)")
    from wq g lb have "thread_step c s' late h
        = h'\<lparr>threads := (threads h')(s' \<mapsto> w'), queues := (queues h')(s' \<mapsto> q')\<rparr>"
      by (simp add: thread_step_def)
    with loop_body_frame [OF lb] show ?thesis by simp
  qed
  with Step assms thread_step_stream_inv show ?thesis
    by (simp add: handler_inv_def)
qed

lemma run_handler_inv: "handler_inv h \<Longrightarrow> handler_inv (run c as h)"
  by (induction as arbitrary: h) (simp_all add: act_handler_inv)

lemma init_handler_inv: "handler_inv (init lg True mbs mbc)"
  by (simp add: handler_inv_def stream_inv_def init_def stream_calls_def)

lemma act_put_log:
  assumes "handler_inv h" and "queues h s = Some q"
  shows "\<exists>q'. queues (act c a h) s = Some q' \<and> prefix (put_log q) (put_log q')"
proof (cases a)
  case (Emit r)
  from assms have uq: "use_queues h" by (simp add: handler_inv_def)
  from emit_queued [OF uq, of c r] assms(2) Emit show ?thesis
    by (cases "s = name r") (auto simp: put_def)
next
  case FlushPut
  with assms show ?thesis by (simp add: flush_put_def put_def)
next
  case (Step s' late)
  show ?thesis
  proof (cases "s' = s")
    case False
    from thread_step_other [OF False, of c late h] assms(2) Step show ?thesis by simp
  next
    case True
    show ?thesis
    proof (cases "\<exists>w. threads h s = Some w \<and> status w = Running")
      case False
      then have "thread_step c s late h = h"
        by (auto simp: thread_step_def split: option.splits)
      with assms(2) Step True show ?thesis by simp
    next
      case ex: True
      then obtain w where wq: "threads h s = Some w" "status w = Running"
        by blast
      obtain g q0 where g: "(case items q of [] \<Rightarrow> (Empty, q)
                               | x # xs \<Rightarrow> (Got x, q\<lparr>items := xs\<rparr>)) = (g, q0)"
        by (cases "case items q of [] \<Rightarrow> (Empty, q) | x # xs \<Rightarrow> (Got x, q\<lparr>items := xs\<rparr>)")
      then have q0: "put_log q0 = put_log q" by (auto split: list.splits)
      obtain w' q' h' where lb:
        "loop_body c s (max_batch_size h) (max_batch_count h) g late (w, q0, h) = (w', q', h')"
        by (cases "loop_body c s (max_batch_size h) (max_batch_count h) g late (w, q0, h)")
      from wq assms(2) g lb have "thread_step c s late h
          = h'\<lparr>threads := (threads h')(s \<mapsto> w'), queues := (queues h')(s \<mapsto> q')\<rparr>"
        by (simp add: thread_step_def)
      with loop_body_put_log [OF lb] q0 Step True show ?thesis by simp
    qed
  qed
qed

lemma run_put_log:
  assumes "handler_inv h" and "queues h s = Some q"
  shows "\<exists>q'. queues (run c as h) s = Some q' \<and> prefix (put_log q) (put_log q')"
  using assms
proof (induction as arbitrary: h q)
  case Nil
  then show ?case by simp
next
  case (Cons a as)
  from act_put_log [OF Cons.prems, of c a] obtain q1 where
    q1: "queues (act c a h) s = Some q1" "prefix (put_log q) (put_log q1)" by blast
  from Cons.IH [OF act_handler_inv [OF Cons.prems(1)] q1(1)] q1(2)
  show ?case by (auto intro: prefix_order.trans)
qed
lemma sentinel_position:
  "END \<notin> set xs \<Longrightarrow> xs @ [END] = ys @ END # r \<Longrightarrow> ys = xs \<and> r = []"
proof (induction xs arbitrary: ys)
  case Nil
  then show ?case by (cases ys) auto
next
  case (Cons a xs)
  then show ?case by (cases ys) auto
qed

text \<open>
  Claim C7. Let \<^verbatim>\<open>flush\<close> be called in a state that the handler (with queues) has
  reached from its creation by any interleaving of emits, flushes and thread steps, let
  it put the sentinel on every queue, and let anything happen afterwards. If then
  \<^verbatim>\<open>join\<close> on the queue of stream \<open>s\<close> returns, the messages delivered to the store
  on \<open>s\<close> are exactly what had been put on that queue when \<^verbatim>\<open>flush\<close> was called, in
  the same order, and the thread has left its loop.
\<close>

theorem flush_drains:
  assumes "h1 = run c as1 (init lg True mbs mbc)"
    and "queues h1 s = Some q1"
    and "h2 = run c as2 (flush_put h1)"
    and "join_returns h2 s"
  shows "map Msg (delivered s h2) = put_log q1
         \<and> (\<exists>w. threads h2 s = Some w \<and> status w = Exited)"
proof -
  have inv1: "handler_inv h1"
    unfolding assms(1) by (rule run_handler_inv [OF init_handler_inv])
  then have invf: "handler_inv (flush_put h1)"
    using act_handler_inv [of h1 c FlushPut] by simp
  have qf: "queues (flush_put h1) s = Some (put q1 END)"
    using assms(2) by (simp add: flush_put_def)
  from run_put_log [OF invf qf, of c as2] assms(3) obtain q2 where
    q2: "queues h2 s = Some q2" "prefix (put_log q1 @ [END]) (put_log q2)"
    by (auto simp: put_def)
  then obtain r where r: "put_log q2 = put_log q1 @ END # r"
    by (auto simp: prefix_def)
  have "handler_inv h2"
    unfolding assms(3) by (rule run_handler_inv [OF invf])
  then have "stream_inv h2 s" by (simp add: handler_inv_def)
  with q2 obtain w where w: "threads h2 s = Some w" "thread_inv w q2 (delivered s h2)"
    by (auto simp: stream_inv_def split: option.splits)
  from assms(4) q2 have u: "unfinished_tasks q2 = 0"
    by (simp add: join_returns_def)
  show ?thesis
  proof (cases "status w")
    case Running
    with w(2) u have "put_log q2 = map Msg (delivered s h2 @ cur_batch w)"
      by (simp add: thread_inv_def)
    with r have "END \<in> set (map Msg (delivered s h2 @ cur_batch w))"
      by (metis in_set_conv_decomp)
    then show ?thesis by auto
  next
    case (Died e)
    with w(2) u r show ?thesis by (auto simp: thread_inv_def)
  next
    case Exited
    with w(2) u have "put_log q2 = map Msg (delivered s h2) @ [END]"
      by (simp add: thread_inv_def)
    with r have "map Msg (delivered s h2) @ [END] = put_log q1 @ END # r" by simp
    moreover have "END \<notin> set (map Msg (delivered s h2))" by auto
    ultimately have "put_log q1 = map Msg (delivered s h2)"
      using sentinel_position by blast
    with w(1) Exited show ?thesis by simp
  qed
qed

theorem flush_drains_witness:
  "map Msg (delivered ''A'' (run accepting [Step ''A'' False]
      (flush_put (run accepting [Emit rec1, Step ''A'' False] (init ''g'' True 100 10)))))
   = [Msg ev1]"
proof -
  let ?h1 = "run accepting [Emit rec1, Step ''A'' False] (init ''g'' True 100 10)"
  let ?h2 = "run accepting [Step ''A'' False] (flush_put ?h1)"
  have q: "queues ?h1 ''A'' = Some \<lparr>items = [], unfinished_tasks = 0, put_log = [Msg ev1]\<rparr>"
    by (simp add: system_defs run_defs example_defs)
  have j: "join_returns ?h2 ''A''"
    by (simp add: system_defs run_defs example_defs)
  from flush_drains [OF refl q refl j] show ?thesis by simp
qed

subsection \<open>The tokens of a stream, over every run\<close>

lemma track_append:
  "track e (xs @ ys) = (case track e xs of None \<Rightarrow> None | Some e' \<Rightarrow> track e' ys)"
  by (induction xs arbitrary: e) (auto split: option.splits)

lemma submit_batch_track:
  assumes "sequence_tokens h s = Some tok"
  shows "\<exists>xs tok'. calls (snd (submit_batch c h b s)) = calls h @ xs
           \<and> (\<forall>x\<in>set xs. logStreamName (fst x) = s)
           \<and> track (First tok) xs = Some (First tok')
           \<and> sequence_tokens (snd (submit_batch c h b s)) = (sequence_tokens h)(s \<mapsto> tok')"
  using assms
  by (auto simp: submit_batch_def call_put_def finish_def after_response_def Let_def
                 fun_upd_idem
           split: option.splits reply.splits sum.splits)

lemma submit_batch_no_entry:
  "sequence_tokens h s = None \<Longrightarrow> snd (submit_batch c h b s) = h"
  by (simp add: submit_batch_def)

lemma stream_calls_append:
  assumes "calls h' = calls h @ xs" and "\<forall>x\<in>set xs. logStreamName (fst x) = s"
  shows "stream_calls s h' = stream_calls s h @ xs"
    and "s' \<noteq> s \<Longrightarrow> stream_calls s' h' = stream_calls s' h"
proof -
  from assms(2) have "filter (\<lambda>x. logStreamName (fst x) = s) xs = xs"
    by (simp add: filter_id_conv)
  with assms(1) show "stream_calls s h' = stream_calls s h @ xs"
    by (simp add: stream_calls_def)
  assume "s' \<noteq> s"
  with assms(2) have "filter (\<lambda>x. logStreamName (fst x) = s') xs = []"
    by (auto simp: filter_empty_conv)
  with assms(1) show "stream_calls s' h' = stream_calls s' h"
    by (simp add: stream_calls_def)
qed

lemma submit_batch_token_inv:
  assumes "\<forall>s'. token_inv h s'"
  shows "token_inv (snd (submit_batch c h b s)) s'"
proof (cases "sequence_tokens h s")
  case None
  with assms submit_batch_no_entry [of h s c b] show ?thesis by simp
next
  case (Some tok)
  from submit_batch_track [OF Some, of c b] obtain xs tok' where
    x: "calls (snd (submit_batch c h b s)) = calls h @ xs"
       "\<forall>x\<in>set xs. logStreamName (fst x) = s"
       "track (First tok) xs = Some (First tok')"
       "sequence_tokens (snd (submit_batch c h b s)) = (sequence_tokens h)(s \<mapsto> tok')"
    by blast
  show ?thesis
  proof (cases "s' = s")
    case True
    from assms Some have "track (First None) (stream_calls s h) = Some (First tok)"
      by (auto simp: token_inv_def split: option.splits)
    with x(3) stream_calls_append(1) [OF x(1,2)] x(4) True show ?thesis
      by (simp add: token_inv_def track_append)
  next
    case False
    from assms have "token_inv h s'" by simp
    with stream_calls_append(2) [OF x(1,2) False] x(4) False show ?thesis
      by (simp add: token_inv_def)
  qed
qed

lemma token_inv_cong:
  assumes "sequence_tokens h' = sequence_tokens h" and "calls h' = calls h"
  shows "token_inv h' s = token_inv h s"
  using assms by (simp add: token_inv_def stream_calls_def)

lemma loop_body_handler:
  assumes "loop_body c s mbs mbc g late (w, q, h) = (w', q', h')"
  shows "h' = h \<or> h' = snd (submit_batch c h (cur_batch w) s)"
proof (cases g)
  case Empty
  with assms show ?thesis by (simp add: loop_body_def)
next
  case (Got x)
  obtain e h1 where sb: "submit_batch c h (cur_batch w) s = (e, h1)"
    by (cases "submit_batch c h (cur_batch w) s")
  with assms Got show ?thesis
    by (auto simp: loop_body_def Let_def split: option.splits qitem.splits if_splits)
qed

lemma emit_shape:
  "\<exists>h1. (h1 = h \<or> (name r \<notin> dom (sequence_tokens h)
                      \<and> h1 = h\<lparr>sequence_tokens := (sequence_tokens h)(name r \<mapsto> None)\<rparr>))
        \<and> (snd (emit c h r) = h
             \<or> (use_queues h \<and> sequence_tokens (snd (emit c h r)) = sequence_tokens h1
                 \<and> calls (snd (emit c h r)) = calls h1)
             \<or> (\<not> use_queues h
                 \<and> snd (emit c h r)
                     = snd (submit_batch c h1
                              [\<lparr>timestamp = created_ms r, message = text_msg r\<rparr>] (name r))))"
proof (cases "name r \<in> dom (sequence_tokens h)")
  case True
  then have "snd (emit c h r) = h
             \<or> (use_queues h \<and> sequence_tokens (snd (emit c h r)) = sequence_tokens h
                 \<and> calls (snd (emit c h r)) = calls h)
             \<or> (\<not> use_queues h
                 \<and> snd (emit c h r)
                     = snd (submit_batch c h
                              [\<lparr>timestamp = created_ms r, message = text_msg r\<rparr>] (name r)))"
    by (auto simp: emit_def Let_def split: option.splits if_splits)
  then show ?thesis by blast
next
  case False
  let ?h0 = "h\<lparr>sequence_tokens := (sequence_tokens h)(name r \<mapsto> None)\<rparr>"
  from False have "snd (emit c h r) = h
             \<or> (use_queues h \<and> sequence_tokens (snd (emit c h r)) = sequence_tokens ?h0
                 \<and> calls (snd (emit c h r)) = calls ?h0)
             \<or> (\<not> use_queues h
                 \<and> snd (emit c h r)
                     = snd (submit_batch c ?h0
                              [\<lparr>timestamp = created_ms r, message = text_msg r\<rparr>] (name r)))"
    by (auto simp: emit_def Let_def split: option.splits if_splits)
  with False show ?thesis by blast
qed

lemma emit_token_inv:
  assumes "\<forall>s'. token_inv h s'"
  shows "token_inv (snd (emit c h r)) s"
proof -
  let ?h0 = "h\<lparr>sequence_tokens := (sequence_tokens h)(name r \<mapsto> None)\<rparr>"
  let ?m = "\<lparr>timestamp = created_ms r, message = text_msg r\<rparr>"
  have new: "\<forall>s'. token_inv ?h0 s'" if "name r \<notin> dom (sequence_tokens h)"
  proof
    fix s'
    from assms have "token_inv h s'" "token_inv h (name r)" by simp_all
    with that show "token_inv ?h0 s'"
      by (auto simp: token_inv_def stream_calls_def domIff)
  qed
  from emit_shape [of h r c] obtain h1 where
    h1: "h1 = h \<or> (name r \<notin> dom (sequence_tokens h) \<and> h1 = ?h0)"
    and sh: "snd (emit c h r) = h
             \<or> (use_queues h \<and> sequence_tokens (snd (emit c h r)) = sequence_tokens h1
                 \<and> calls (snd (emit c h r)) = calls h1)
             \<or> (\<not> use_queues h
                 \<and> snd (emit c h r) = snd (submit_batch c h1 [?m] (name r)))"
    by blast
  from h1 assms new have i1: "\<forall>s'. token_inv h1 s'" by blast
  from sh show ?thesis
  proof (elim disjE conjE)
    assume "snd (emit c h r) = h"
    with assms show ?thesis by simp
  next
    assume "sequence_tokens (snd (emit c h r)) = sequence_tokens h1"
      "calls (snd (emit c h r)) = calls h1"
    with token_inv_cong [of "snd (emit c h r)" h1 s] i1 show ?thesis by simp
  next
    assume "snd (emit c h r) = snd (submit_batch c h1 [?m] (name r))"
    with submit_batch_token_inv [OF i1, of c "[?m]" "name r" s] show ?thesis by simp
  qed
qed

lemma thread_step_token_inv:
  assumes "\<forall>s'. token_inv h s'"
  shows "token_inv (thread_step c s late h) s'"
proof (cases "\<exists>w q. threads h s = Some w \<and> queues h s = Some q \<and> status w = Running")
  case False
  then have "thread_step c s late h = h"
    by (auto simp: thread_step_def split: option.splits)
  with assms show ?thesis by simp
next
  case True
  then obtain w q where wq: "threads h s = Some w" "queues h s = Some q" "status w = Running"
    by blast
  obtain g q0 where g: "(case items q of [] \<Rightarrow> (Empty, q)
                           | x # xs \<Rightarrow> (Got x, q\<lparr>items := xs\<rparr>)) = (g, q0)"
    by (cases "case items q of [] \<Rightarrow> (Empty, q) | x # xs \<Rightarrow> (Got x, q\<lparr>items := xs\<rparr>)")
  obtain w' q' h' where lb:
    "loop_body c s (max_batch_size h) (max_batch_count h) g late (w, q0, h) = (w', q', h')"
    by (cases "loop_body c s (max_batch_size h) (max_batch_count h) g late (w, q0, h)")
  from wq g lb have ts: "thread_step c s late h
      = h'\<lparr>threads := (threads h')(s \<mapsto> w'), queues := (queues h')(s \<mapsto> q')\<rparr>"
    by (simp add: thread_step_def)
  from loop_body_handler [OF lb] assms submit_batch_token_inv [OF assms, of c "cur_batch w" s s']
  have "token_inv h' s'" by auto
  with ts token_inv_cong [of "thread_step c s late h" h' s'] show ?thesis by simp
qed

lemma act_token_inv:
  assumes "\<forall>s. token_inv h s"
  shows "\<forall>s. token_inv (act c a h) s"
proof (cases a)
  case (Emit r)
  with emit_token_inv [OF assms] show ?thesis by simp
next
  case FlushPut
  with assms token_inv_cong [of "flush_put h" h] show ?thesis
    by (simp add: flush_put_def)
next
  case (Step s late)
  with thread_step_token_inv [OF assms] show ?thesis by simp
qed

lemma run_token_inv: "\<forall>s. token_inv h s \<Longrightarrow> \<forall>s. token_inv (run c as h) s"
proof (induction as arbitrary: h)
  case Nil
  then show ?case by simp
next
  case (Cons a as)
  from Cons.IH [OF act_token_inv [OF Cons.prems]] show ?case by simp
qed

lemma init_token_inv: "token_inv (init lg uq mbs mbc) s"
  by (simp add: token_inv_def init_def stream_calls_def)

text \<open>
  Claim C2, as amended. Take any run of the handler from its creation, with or without
  queues, and any stream. Read in order, the requests made for the stream carry these
  tokens: the first request of a submission carries the \<^verbatim>\<open>nextSequenceToken\<close> of the
  latest response that ended a submission of the stream successfully, and no token
  while there has been none, so none on the stream's first submission; the retry after
  a stale-token error carries the token of the error message. The token stored for the
  stream, once the stream is created, is the one the next submission will carry.
\<close>

theorem stream_token_continuity:
  "\<exists>tok. track (First None) (stream_calls s (run c as (init lg uq mbs mbc)))
            = Some (First tok)
         \<and> sequence_tokens (run c as (init lg uq mbs mbc)) s \<in> {None, Some tok}"
proof -
  let ?h = "run c as (init lg uq mbs mbc)"
  have "\<forall>s. token_inv (init lg uq mbs mbc) s"
    by (simp add: init_token_inv)
  then have inv: "token_inv ?h s"
    using run_token_inv by blast
  show ?thesis
  proof (cases "sequence_tokens ?h s")
    case None
    with inv have "stream_calls s ?h = []" by (simp add: token_inv_def)
    with None show ?thesis by simp
  next
    case (Some tok)
    with inv have "track (First None) (stream_calls s ?h) = Some (First tok)"
      by (simp add: token_inv_def)
    with Some show ?thesis by simp
  qed
qed

theorem stream_token_continuity_witness:
  "map (sequenceToken \<circ> fst)
     (stream_calls ''A'' (run accepting [Emit rec1, Emit rec1] (init ''g'' False 100 10)))
     = [None, Some ''t'']
   \<and> track (First None)
       (stream_calls ''A'' (run accepting [Emit rec1, Emit rec1] (init ''g'' False 100 10)))
     = Some (First (Some ''tt''))"
proof -
  let ?h = "run accepting [Emit rec1, Emit rec1] (init ''g'' False 100 10)"
  have t: "sequence_tokens ?h ''A'' = Some (Some ''tt'')"
    by (simp add: system_defs run_defs example_defs)
  have m: "map (sequenceToken \<circ> fst) (stream_calls ''A'' ?h) = [None, Some ''t'']"
    by (simp add: system_defs run_defs example_defs)
  from stream_token_continuity [of "''A''" accepting "[Emit rec1, Emit rec1]" "''g''" False 100 10]
  obtain tok where "track (First None) (stream_calls ''A'' ?h) = Some (First tok)"
    and "sequence_tokens ?h ''A'' \<in> {None, Some tok}"
    by blast
  with t have "track (First None) (stream_calls ''A'' ?h) = Some (First (Some ''tt''))"
    by simp
  with m show ?thesis by simp
qed

text \<open>
  The claim as worded fails on a retry: the second request of the stream's first
  submission carries the token of the error message, so a token is present in the first
  submission, and it is not one that a submission returned.
\<close>

theorem token_retry_counterexample:
  "sequence_tokens handler_A ''A'' = Some None
   \<and> map (sequenceToken \<circ> fst)
       (calls (snd (submit_batch (stale_first ''expected sequence token is 49'')
                      handler_A [ev1] ''A'')))
     = [None, Some ''49'']"
  by (simp add: submit_batch_def call_put_def finish_def stale_first_def handler_A_def
                init_def rsplit_last_def Let_def)

subsection \<open>\<^verbatim>\<open>batch_sender\<close>: closing a batch\<close>

lemma closing_item_submits:
  assumes cl: "closes mbs mbc late w x"
    and lb: "loop_body c s mbs mbc (Got x) late (w, q, h) = (w', q', h')"
  shows "h' = snd (submit_batch c h (cur_batch w) s)
         \<and> (\<forall>e. fst (submit_batch c h (cur_batch w) s) = Some e \<longrightarrow> status w' = Died e)
         \<and> (fst (submit_batch c h (cur_batch w) s) = None \<and> unfinished_tasks q \<noteq> 0 \<longrightarrow>
              (x = END \<longrightarrow> status w' = Exited)
              \<and> (\<forall>m. x = Msg m \<longrightarrow> cur_batch w' = [m] \<and> cur_batch_size w' = size_msg m
                                    \<and> status w' = status w))"
proof -
  obtain e h1 where sb: "submit_batch c h (cur_batch w) s = (e, h1)"
    by (cases "submit_batch c h (cur_batch w) s")
  have cl': "closes mbs mbc late (w\<lparr>msg := Some x\<rparr>) x"
    using cl by (cases x) auto
  from lb cl' sb show ?thesis
    by (cases e; cases x)
       (auto simp: loop_body_def Let_def while_head_def task_done_def split: option.splits)
qed

lemma close_calls:
  assumes "h' = snd (submit_batch c h b s)" and "sequence_tokens h s \<noteq> None"
  shows "new_calls h h' \<noteq> [] \<and> (\<forall>y\<in>set (new_calls h h'). logEvents (fst y) = b)"
proof -
  from assms(2) obtain tok where tok: "sequence_tokens h s = Some tok" by auto
  from submit_batch_first_call [OF tok, of c b] assms(1)
  have "new_calls h h' \<noteq> []" by auto
  moreover from submit_batch_calls [of c h b s] assms(1)
  have "\<forall>y\<in>set (new_calls h h'). logEvents (fst y) = b"
    by (auto simp: new_calls_def)
  ultimately show ?thesis by simp
qed

text \<open>
  Claim C6, as amended. A thread that receives an item closing its batch (the sentinel,
  always; a message that does not fit, that finds the batch full, or that arrives late)
  calls \<^verbatim>\<open>_submit_batch\<close> with the batch as it is, empty or not: when the stream has
  a token entry, requests are made and each carries exactly that batch. If the call
  raises, the thread dies of that error. If it returns, the thread leaves its loop on
  the sentinel, and on a message goes on with that message as its batch. A message that
  does not close the batch causes no request and is appended to the batch.
\<close>

theorem close_submits:
  "(closes mbs mbc late w x
      \<and> loop_body c s mbs mbc (Got x) late (w, q, h) = (w', q', h') \<longrightarrow>
        h' = snd (submit_batch c h (cur_batch w) s)
        \<and> (sequence_tokens h s \<noteq> None \<longrightarrow>
              new_calls h h' \<noteq> []
              \<and> (\<forall>y\<in>set (new_calls h h'). logEvents (fst y) = cur_batch w))
        \<and> (\<forall>e. fst (submit_batch c h (cur_batch w) s) = Some e \<longrightarrow> status w' = Died e)
        \<and> (fst (submit_batch c h (cur_batch w) s) = None \<and> unfinished_tasks q \<noteq> 0 \<longrightarrow>
              (x = END \<longrightarrow> status w' = Exited)
              \<and> (\<forall>m. x = Msg m \<longrightarrow> cur_batch w' = [m] \<and> status w' = status w)))
   \<and> closes mbs mbc late w END
   \<and> (\<not> closes mbs mbc late w (Msg m)
      \<and> loop_body c s mbs mbc (Got (Msg m)) late (w, q, h) = (w', q', h') \<longrightarrow>
        new_calls h h' = [] \<and> cur_batch w' = cur_batch w @ [m])"
proof -
  have closing: "h' = snd (submit_batch c h (cur_batch w) s)
        \<and> (sequence_tokens h s \<noteq> None \<longrightarrow>
              new_calls h h' \<noteq> []
              \<and> (\<forall>y\<in>set (new_calls h h'). logEvents (fst y) = cur_batch w))
        \<and> (\<forall>e. fst (submit_batch c h (cur_batch w) s) = Some e \<longrightarrow> status w' = Died e)
        \<and> (fst (submit_batch c h (cur_batch w) s) = None \<and> unfinished_tasks q \<noteq> 0 \<longrightarrow>
              (x = END \<longrightarrow> status w' = Exited)
              \<and> (\<forall>m. x = Msg m \<longrightarrow> cur_batch w' = [m] \<and> status w' = status w))"
    if cl: "closes mbs mbc late w x"
      and lb: "loop_body c s mbs mbc (Got x) late (w, q, h) = (w', q', h')"
    using closing_item_submits [OF cl lb] close_calls [of h' c h "cur_batch w" s]
    by blast
  have message: "new_calls h h' = [] \<and> cur_batch w' = cur_batch w @ [m]"
    if "\<not> closes mbs mbc late w (Msg m)"
      and "loop_body c s mbs mbc (Got (Msg m)) late (w, q, h) = (w', q', h')"
    using that
    by (auto simp: loop_body_def Let_def new_calls_def split: option.splits)
  have "closes mbs mbc late w END" by simp
  with closing message show ?thesis by blast
qed

theorem close_submits_witness:
  "map (logEvents \<circ> fst) (new_calls handler_A (snd (snd
       (loop_body accepting ''A'' 30 10 (Got (Msg ev_big)) False
          (new_sender, queue_n 1, handler_A))))) = [[]]
   \<and> cur_batch (fst (loop_body accepting ''A'' 30 10 (Got (Msg ev_big)) False
          (new_sender, queue_n 1, handler_A))) = [ev_big]
   \<and> new_calls handler_A (snd (snd
       (loop_body accepting ''A'' 100 10 (Got (Msg ev1)) False
          (new_sender, queue_n 1, handler_A)))) = []"
proof -
  let ?L = "loop_body accepting ''A'' 30 10 (Got (Msg ev_big)) False
              (new_sender, queue_n 1, handler_A)"
  let ?M = "loop_body accepting ''A'' 100 10 (Got (Msg ev1)) False
              (new_sender, queue_n 1, handler_A)"
  have l: "?L = (fst ?L, fst (snd ?L), snd (snd ?L))" by simp
  have m: "?M = (fst ?M, fst (snd ?M), snd (snd ?M))" by simp
  have cl: "closes 30 10 False new_sender (Msg ev_big)"
    by (simp add: run_defs example_defs)
  have t: "sequence_tokens handler_A ''A'' \<noteq> None" by (simp add: handler_A_def)
  have ok: "fst (submit_batch accepting handler_A (cur_batch new_sender) ''A'') = None
            \<and> unfinished_tasks (queue_n 1) \<noteq> 0"
    by (simp add: run_defs example_defs)
  have nc: "\<not> closes 100 10 False new_sender (Msg ev1)"
    by (simp add: run_defs example_defs)
  have e: "cur_batch new_sender = []" by (simp add: new_sender_def while_head_def)
  from close_submits [where c = accepting and s = "''A''" and mbs = 30 and mbc = 10
      and late = False and w = new_sender and q = "queue_n 1" and h = handler_A
      and x = "Msg ev_big"
      and w' = "fst ?L" and q' = "fst (snd ?L)" and h' = "snd (snd ?L)"] l cl t ok
  have 1: "\<forall>y\<in>set (new_calls handler_A (snd (snd ?L))). logEvents (fst y) = cur_batch new_sender"
    and 2: "new_calls handler_A (snd (snd ?L)) \<noteq> []"
    and 3: "cur_batch (fst ?L) = [ev_big]"
    by blast+
  from close_submits [where c = accepting and s = "''A''" and mbs = 100 and mbc = 10
      and late = False and w = new_sender and q = "queue_n 1" and h = handler_A
      and m = ev1 and w' = "fst ?M" and q' = "fst (snd ?M)" and h' = "snd (snd ?M)"] m nc
  have 4: "new_calls handler_A (snd (snd ?M)) = []"
    by blast
  have "map (logEvents \<circ> fst) (new_calls handler_A (snd (snd ?L))) = [[]]"
    by (simp add: run_defs example_defs)
  with 3 4 show ?thesis by blast
qed

text \<open>
  The claim as worded fails: when the first record of a stream is larger than
  \<^verbatim>\<open>max_batch_size\<close>, the thread's first request holds no events.
\<close>

theorem empty_batch_counterexample:
  "map (logEvents \<circ> fst)
     (calls (run accepting [Emit rec_big, Step ''A'' False] (init ''g'' True 30 10)))
   = [[]]"
  by (simp add: system_defs run_defs example_defs rec_big_def)

lemma alone_submitted:
  assumes "cur_batch w1 = [m]" and "cur_batch_size w1 = size_msg m" and "mbs < size_msg m"
    and "sequence_tokens h1 s \<noteq> None"
    and "loop_body c s mbs mbc (Got x) late (w1, q1, h1) = (w2, q2, h2)"
  shows "new_calls h1 h2 \<noteq> [] \<and> (\<forall>y\<in>set (new_calls h1 h2). logEvents (fst y) = [m])"
proof -
  have cl: "closes mbs mbc late (w1\<lparr>msg := Some x\<rparr>) x"
    using assms(2,3) by (cases x) (auto simp: size_msg_def)
  obtain tok where tok: "sequence_tokens h1 s = Some tok"
    using assms(4) by auto
  obtain e h' where sb: "submit_batch c h1 [m] s = (e, h')"
    by (cases "submit_batch c h1 [m] s")
  from assms(1,5) cl sb have h2: "h2 = h'"
    by (auto simp: loop_body_def Let_def split: option.splits)
  from submit_batch_first_call [OF tok, of c "[m]"] sb h2
  have ne: "new_calls h1 h2 \<noteq> []" by auto
  from submit_batch_calls [of c h1 "[m]" s] sb h2
  have "\<forall>y\<in>set (new_calls h1 h2). logEvents (fst y) = [m]"
    by (auto simp: new_calls_def)
  with ne show ?thesis by simp
qed

text \<open>
  Claim C4, as amended. For a limit \<^verbatim>\<open>max_batch_size\<close> that is not negative, every
  request that a batch-sender thread makes has a summed size cost within the limit, or
  holds exactly one message. When a running thread receives a message whose own cost
  exceeds the limit, it submits the batch it holds; if that call raises, the thread dies
  of the error; if it returns, the thread goes on with exactly that message as its
  batch, and whatever item it receives next, it then calls \<^verbatim>\<open>put_log_events\<close> with
  exactly that message.
\<close>

theorem batch_size_bound:
  assumes "0 \<le> mbs"
    and "batch_sender c s mbs mbc evs (new_sender, q, h) = (w', q', h')"
  shows "(\<forall>x\<in>set (new_calls h h').
            sum_list (map size_msg (logEvents (fst x))) \<le> mbs
            \<or> length (logEvents (fst x)) = 1)
       \<and> (\<forall>m late w1 q1 h1.
            mbs < size_msg m \<and> status w' = Running
            \<and> loop_body c s mbs mbc (Got (Msg m)) late (w', q', h') = (w1, q1, h1) \<longrightarrow>
              h1 = snd (submit_batch c h' (cur_batch w') s)
              \<and> (\<forall>e. fst (submit_batch c h' (cur_batch w') s) = Some e
                       \<longrightarrow> status w1 = Died e)
              \<and> (fst (submit_batch c h' (cur_batch w') s) = None
                    \<and> unfinished_tasks q' \<noteq> 0 \<longrightarrow>
                  status w1 = Running \<and> cur_batch w1 = [m]
                  \<and> (\<forall>x late2. new_calls h1
                        (snd (snd (loop_body c s mbs mbc (Got x) late2 (w1, q1, h1)))) \<noteq> []
                      \<and> (\<forall>y\<in>set (new_calls h1
                            (snd (snd (loop_body c s mbs mbc (Got x) late2 (w1, q1, h1))))).
                           logEvents (fst y) = [m]))))"
proof -
  have pres: "\<And>g late w q h w' q' h'. size_inv mbs w \<Longrightarrow>
            loop_body c s mbs mbc g late (w, q, h) = (w', q', h') \<Longrightarrow> size_inv mbs w'"
    using assms(1) by (rule loop_body_size_inv)
  have start: "size_inv mbs new_sender"
    using assms(1) by (rule new_sender_size_inv)
  have "\<exists>xs. calls h' = calls h @ xs
          \<and> (\<forall>x\<in>set xs. sum_list (map size_msg (logEvents (fst x))) \<le> mbs
                          \<or> length (logEvents (fst x)) = 1)"
    by (rule batch_sender_calls [where I = "size_inv mbs"
            and P = "\<lambda>b. sum_list (map size_msg b) \<le> mbs \<or> length b = 1",
            OF pres _ start assms(2)])
       (auto simp: size_inv_def)
  then have bound: "\<forall>x\<in>set (new_calls h h').
            sum_list (map size_msg (logEvents (fst x))) \<le> mbs
            \<or> length (logEvents (fst x)) = 1"
    by (auto simp: new_calls_def)
  have inv': "size_inv mbs w'"
    by (rule batch_sender_inv [where I = "size_inv mbs", OF pres start assms(2)])
  have over: "h1 = snd (submit_batch c h' (cur_batch w') s)
              \<and> (\<forall>e. fst (submit_batch c h' (cur_batch w') s) = Some e
                       \<longrightarrow> status w1 = Died e)
              \<and> (fst (submit_batch c h' (cur_batch w') s) = None
                    \<and> unfinished_tasks q' \<noteq> 0 \<longrightarrow>
                  status w1 = Running \<and> cur_batch w1 = [m]
                  \<and> (\<forall>x late2. new_calls h1
                        (snd (snd (loop_body c s mbs mbc (Got x) late2 (w1, q1, h1)))) \<noteq> []
                      \<and> (\<forall>y\<in>set (new_calls h1
                            (snd (snd (loop_body c s mbs mbc (Got x) late2 (w1, q1, h1))))).
                           logEvents (fst y) = [m])))"
    if big: "mbs < size_msg m" and run: "status w' = Running"
      and lb: "loop_body c s mbs mbc (Got (Msg m)) late (w', q', h') = (w1, q1, h1)"
    for m late w1 q1 h1
  proof -
    have cl: "closes mbs mbc late w' (Msg m)"
      using inv' big size_sum_nonneg [of "cur_batch w'"] by (simp add: size_inv_def)
    note cs = closing_item_submits [OF cl lb]
    have next_item: "new_calls h1
            (snd (snd (loop_body c s mbs mbc (Got x) late2 (w1, q1, h1)))) \<noteq> []
          \<and> (\<forall>y\<in>set (new_calls h1
                (snd (snd (loop_body c s mbs mbc (Got x) late2 (w1, q1, h1))))).
               logEvents (fst y) = [m])"
      if ok: "fst (submit_batch c h' (cur_batch w') s) = None" "unfinished_tasks q' \<noteq> 0"
      for x late2
    proof -
      from cs ok have w1: "cur_batch w1 = [m]" "cur_batch_size w1 = size_msg m"
        and h1: "h1 = snd (submit_batch c h' (cur_batch w') s)"
        by auto
      from ok(1) have "submit_batch c h' (cur_batch w') s = (None, h1)"
        using h1 by (metis prod.collapse)
      from submit_batch_ok [OF this] have tk: "sequence_tokens h1 s \<noteq> None" by auto
      obtain w2 q2 h2 where lb2:
        "loop_body c s mbs mbc (Got x) late2 (w1, q1, h1) = (w2, q2, h2)"
        by (cases "loop_body c s mbs mbc (Got x) late2 (w1, q1, h1)")
      from alone_submitted [OF w1 big tk lb2] lb2 show ?thesis by simp
    qed
    from cs run next_item show ?thesis by auto
  qed
  from bound over show ?thesis by blast
qed

theorem batch_size_bound_witness:
  "length (logEvents (fst (last (new_calls handler_A (snd (snd (batch_sender accepting
        ''A'' 30 10 [(Got (Msg ev1), False), (Got (Msg ev_big), False), (Got END, False)]
        (new_sender, queue_n 3, handler_A)))))))) = 1
   \<and> map (logEvents \<circ> fst) (new_calls handler_A (snd (snd (batch_sender accepting ''A'' 30 10
        [(Got (Msg ev1), False), (Got (Msg ev_big), False), (Got END, False)]
        (new_sender, queue_n 3, handler_A))))) = [[ev1], [ev_big]]
   \<and> cur_batch (fst (loop_body accepting ''A'' 30 10 (Got (Msg ev_big)) False
        (batch_sender accepting ''A'' 30 10 [(Got (Msg ev1), False)]
           (new_sender, queue_n 3, handler_A)))) = [ev_big]"
proof -
  let ?R = "batch_sender accepting ''A'' 30 10
        [(Got (Msg ev1), False), (Got (Msg ev_big), False), (Got END, False)]
        (new_sender, queue_n 3, handler_A)"
  let ?R1 = "batch_sender accepting ''A'' 30 10 [(Got (Msg ev1), False)]
           (new_sender, queue_n 3, handler_A)"
  let ?L = "loop_body accepting ''A'' 30 10 (Got (Msg ev_big)) False ?R1"
  have z: "(0::int) \<le> 30" by simp
  have run: "?R = (fst ?R, fst (snd ?R), snd (snd ?R))" by simp
  have run1: "?R1 = (fst ?R1, fst (snd ?R1), snd (snd ?R1))" by simp
  have b: "map (logEvents \<circ> fst) (new_calls handler_A (snd (snd ?R))) = [[ev1], [ev_big]]"
    by (simp add: run_defs example_defs)
  then have i: "last (new_calls handler_A (snd (snd ?R)))
                  \<in> set (new_calls handler_A (snd (snd ?R)))"
    and o: "logEvents (fst (last (new_calls handler_A (snd (snd ?R))))) = [ev_big]"
    by (auto simp: last_map [symmetric] simp del: last_map)
  have big1: "\<not> sum_list (map size_msg
        (logEvents (fst (last (new_calls handler_A (snd (snd ?R))))))) \<le> 30"
    unfolding o by (simp add: size_msg_def ev_big_def)
  from batch_size_bound [OF z run, THEN conjunct1, rule_format, OF i] big1
  have a: "length (logEvents (fst (last (new_calls handler_A (snd (snd ?R)))))) = 1"
    by blast
  have big: "30 < size_msg ev_big"
    by (simp add: size_msg_def ev_big_def)
  have r1: "status (fst ?R1) = Running"
    by (simp add: run_defs example_defs)
  have l: "loop_body accepting ''A'' 30 10 (Got (Msg ev_big)) False
             (fst ?R1, fst (snd ?R1), snd (snd ?R1)) = (fst ?L, fst (snd ?L), snd (snd ?L))"
    by simp
  have ok: "fst (submit_batch accepting (snd (snd ?R1)) (cur_batch (fst ?R1)) ''A'') = None
            \<and> unfinished_tasks (fst (snd ?R1)) \<noteq> 0"
    by (simp add: run_defs example_defs)
  have pre: "30 < size_msg ev_big \<and> status (fst ?R1) = Running
      \<and> loop_body accepting ''A'' 30 10 (Got (Msg ev_big)) False
            (fst ?R1, fst (snd ?R1), snd (snd ?R1)) = (fst ?L, fst (snd ?L), snd (snd ?L))"
    using big r1 l by (intro conjI)
  note bs = batch_size_bound [OF z run1, THEN conjunct2, rule_format, OF pre]
  from bs [THEN conjunct2, THEN conjunct2, rule_format, OF ok]
  have "cur_batch (fst ?L) = [ev_big]"
    by (rule conjunct2 [THEN conjunct1])
  with a b show ?thesis by blast
qed

text \<open>
  The claim as worded fails in two places. With the limit \<open>-1\<close> the first request holds
  no events: a summed cost of 0, above the limit, in a batch that is not one message.
  And when an oversized record is followed by a timeout of \<^verbatim>\<open>get\<close>, the thread dies
  holding that record, which no request has carried.
\<close>

theorem batch_size_counterexample:
  "map (logEvents \<circ> fst)
     (calls (run accepting [Emit rec1, Step ''A'' False] (init ''g'' True (- 1) 10))) = [[]]
   \<and> sum_list (map size_msg []) > (- 1 :: int)
   \<and> map (logEvents \<circ> fst)
       (calls (run accepting [Emit rec_big, Step ''A'' False, Step ''A'' True]
                 (init ''g'' True 30 10))) = [[]]
   \<and> map_option (\<lambda>w. (status w, cur_batch w))
       (threads (run accepting [Emit rec_big, Step ''A'' False, Step ''A'' True]
                   (init ''g'' True 30 10)) ''A'')
     = Some (Died AttributeError, [ev_big])"
  by (simp add: system_defs run_defs example_defs rec_big_def)

end
